theory Spec2Isabelle
  imports Complex_Main
begin

section \<open>The request layer of \<open>HeadHunterBitrixIntegration\<close>\<close>

text \<open>
  The integration object of \<open>main.py\<close> talks to three services (HeadHunter, Bitrix24,
  Telegram) through one method, \<open>make_request\<close>. The model makes the outside world
  explicit: an environment answers the k-th call of \<open>session.request\<close>, and the state
  carries the wall clock, the object's fields and a trace of what was done.
\<close>

subsection \<open>Requests, responses and the environment\<close>

text \<open>
  A Python \<open>str\<close> that ends up in the ledger is a list of code points; what is on disk
  is a list of bytes. Tokens and the ids of postings stay opaque strings.
\<close>

type_synonym pystr = "nat list"

type_synonym bytes = "char list"

text \<open>What the code sends. Message texts are kept as the kind of notification only.\<close>

datatype notice =
    NoteSuccess
  | NoteError
  | NoteLog
  | NoteSummary nat nat nat
  | NoteRaw

datatype request =
    GetMe
  | GetVacancies string nat nat
  | GetNegotiations string nat nat
  | PostTokenRefresh string
  | PostTokenCode string
  | PostBitrix pystr
  | PostTelegram notice

text \<open>
  The \<open>Retry-After\<close> header as \<open>int(response.headers.get('Retry-After', retry_delay))\<close>
  reads it: absent, an integer, or a text \<open>int\<close> rejects with \<open>ValueError\<close>.
\<close>

datatype hint = NoHeader | Seconds int | NotInt

datatype py_error = ValueError | AuthError | OtherError

text \<open>
  A decoded body: the fields the code reads with \<open>.get\<close>. \<open>NotJson\<close> is a body on which
  \<open>response.json()\<close> raises.
\<close>

record vacancy =
  vacancy_id :: "string option"
  vacancy_name :: string

text \<open>
  A negotiation: \<open>str(negotiation.get('id', ''))\<close>, and whether the fields
  \<open>create_bitrix_lead\<close> reads from it (the resume and its contacts) have the shape the
  code expects, so that building the lead data raises nothing.
\<close>

record negotiation =
  neg_id :: pystr
  resume_ok :: bool

datatype body =
    NotJson
  | TokenData "string option" "string option" "int option"
  | MeData "string option" bool
  | VacancyItems "vacancy list"
  | NegotiationItems "negotiation list"
  | LeadResult "string option"

record response =
  status_code :: int
  retry_after :: hint
  body :: body

datatype outcome = Resp response | ConnFail

text \<open>
  The truth value of a \<open>requests.Response\<close> is its \<open>ok\<close> property: false for a status
  from 400 to 599. So \<open>if not response\<close> holds for \<open>None\<close> and for every response with a
  client or server error status.
\<close>

definition response_ok :: "response \<Rightarrow> bool" where
  "response_ok r = (\<not> (400 \<le> status_code r \<and> status_code r < 600))"

text \<open>
  The environment: the answer and the duration of the k-th call of \<open>session.request\<close>,
  whether the k-th \<open>open(..., 'a')\<close> and write of the ledger goes through, and the text
  encoding \<open>open\<close> uses when none is named (the locale's): \<open>decode\<close> and \<open>encode\<close> are
  \<open>None\<close> where Python raises \<open>UnicodeDecodeError\<close> or \<open>UnicodeEncodeError\<close>.
\<close>

record env =
  respond :: "nat \<Rightarrow> request \<Rightarrow> outcome"
  latency :: "nat \<Rightarrow> real"
  append_ok :: "nat \<Rightarrow> bool"
  decode :: "bytes \<Rightarrow> pystr option"
  encode :: "pystr \<Rightarrow> bytes option"

subsection \<open>State\<close>

datatype why = Pacing | RateLimited | Backoff | BetweenLeads

text \<open>
  The trace records, newest first, every sleep, every outbound call with its start time,
  every invocation of \<open>refresh_access_token\<close>, and every invocation of
  \<open>create_bitrix_lead\<close> with what it returned.
\<close>

datatype event =
    Slept why real
  | Sent real request
  | RefreshCalled
  | CreateLeadCalled pystr
  | CreateLeadReturned pystr bool

text \<open>
  The fields of the object that the modelled methods read or write, the clock, the two
  counters that index the environment, and the files: the ledger
  \<open>processed_applications.txt\<close> (\<open>None\<close> when it does not exist) and its dated
  backups, keyed by the day \<open>strftime('%Y%m%d')\<close> names.
\<close>

record state =
  clock :: real
  last_request_time :: real
  n_calls :: nat
  n_appends :: nat
  trace :: "event list"
  hh_access_token :: "string option"
  hh_refresh_token :: string
  token_expires_at :: "real option"
  processed_ids :: "pystr set"
  ledger_file :: "bytes option"
  backups :: "int \<Rightarrow> bytes option"

definition min_request_interval :: real where
  "min_request_interval = 1.0"

definition max_retries :: nat where
  "max_retries = 3"

definition retry_delay :: int where
  "retry_delay = 5"

text \<open>
  \<open>time.sleep(d)\<close> for \<open>d \<ge> 0\<close>: the clock advances by \<open>d\<close>. A negative \<open>d\<close> raises
  \<open>ValueError\<close>; the one caller that can pass one checks it before.
\<close>

definition sleep :: "why \<Rightarrow> real \<Rightarrow> state \<Rightarrow> state" where
  "sleep y d s = s\<lparr>clock := clock s + d, trace := Slept y d # trace s\<rparr>"

definition rate_limit :: "state \<Rightarrow> state" where
  "rate_limit s =
     (let current_time = clock s;
          time_since_last = current_time - last_request_time s;
          s1 = (if time_since_last < min_request_interval
                then sleep Pacing (min_request_interval - time_since_last) s
                else s)
      in s1\<lparr>last_request_time := clock s1\<rparr>)"

text \<open>
  \<open>session.request(method, url, **kwargs)\<close>: the call starts now, the environment
  decides its outcome and how long it took.
\<close>

definition session_request :: "env \<Rightarrow> request \<Rightarrow> state \<Rightarrow> outcome \<times> state" where
  "session_request E req s =
     (respond E (n_calls s) req,
      s\<lparr>clock := clock s + latency E (n_calls s),
        n_calls := Suc (n_calls s),
        trace := Sent (clock s) req # trace s\<rparr>)"

function make_request_from ::
  "env \<Rightarrow> request \<Rightarrow> nat \<Rightarrow> state \<Rightarrow> (py_error + response option) \<times> state" where
  "make_request_from E req attempt s =
     (if max_retries \<le> attempt then (Inr None, s)
      else
        (case session_request E req (rate_limit s) of
           (ConnFail, s2) \<Rightarrow>
             if attempt = max_retries - 1 then (Inr None, s2)
             else make_request_from E req (attempt + 1)
                    (sleep Backoff (real_of_int (retry_delay * (int attempt + 1))) s2)
         | (Resp r, s2) \<Rightarrow>
             if status_code r = 429 then
               (case retry_after r of
                  NotInt \<Rightarrow> (Inl ValueError, s2)
                | NoHeader \<Rightarrow>
                    make_request_from E req (attempt + 1)
                      (sleep RateLimited (real_of_int retry_delay) s2)
                | Seconds n \<Rightarrow>
                    if n < 0 then (Inl ValueError, s2)
                    else make_request_from E req (attempt + 1)
                           (sleep RateLimited (real_of_int n) s2))
             else (Inr (Some r), s2)))"
  by pat_completeness auto
termination
  by (relation "measure (\<lambda>(E, req, attempt, s). max_retries - attempt)") auto

definition make_request :: "env \<Rightarrow> request \<Rightarrow> state \<Rightarrow> (py_error + response option) \<times> state" where
  "make_request E req s = make_request_from E req 0 s"

subsection \<open>Token lifecycle\<close>

definition truthy :: "string option \<Rightarrow> bool" where
  "truthy v = (case v of None \<Rightarrow> False | Some x \<Rightarrow> x \<noteq> [])"

definition is_token_expired :: "state \<Rightarrow> bool" where
  "is_token_expired s =
     (case token_expires_at s of
        None \<Rightarrow> False
      | Some expires_at \<Rightarrow> clock s \<ge> expires_at - 5 * 60)"

text \<open>
  Every \<open>send_telegram_*\<close> method ends in \<open>send_telegram_message\<close>, which posts through
  \<open>make_request\<close>, catches every exception and returns nothing.
\<close>

definition send_telegram_message :: "env \<Rightarrow> notice \<Rightarrow> state \<Rightarrow> state" where
  "send_telegram_message E n s = snd (make_request E (PostTelegram n) s)"

text \<open>
  \<open>config.set\<close> of a \<open>ConfigParser\<close> raises \<open>ValueError\<close> on a value whose \<open>%\<close> signs
  are not interpolation syntax: with every \<open>%%\<close> and then every \<open>%(name)s\<close> taken out, no
  \<open>%\<close> may be left.
\<close>

fun drop_escaped :: "string \<Rightarrow> string" where
  "drop_escaped [] = []"
| "drop_escaped [c] = [c]"
| "drop_escaped (c # d # cs) =
     (if c = CHR ''%'' \<and> d = CHR ''%'' then drop_escaped cs
      else c # drop_escaped (d # cs))"

text \<open>
  After \<open>%(\<close>: a name of one or more characters other than \<open>)\<close>, then \<open>)s\<close>; the result
  is what follows the match.
\<close>

definition key_rest :: "string \<Rightarrow> string option" where
  "key_rest cs =
     (let name = takeWhile (\<lambda>c. c \<noteq> CHR '')'') cs;
          rest = dropWhile (\<lambda>c. c \<noteq> CHR '')'') cs
      in if name \<noteq> [] \<and> take 2 rest = '')s'' then Some (drop 2 rest) else None)"

fun drop_keys :: "nat \<Rightarrow> string \<Rightarrow> string" where
  "drop_keys 0 cs = cs"
| "drop_keys (Suc n) [] = []"
| "drop_keys (Suc n) (c # cs) =
     (if c = CHR ''%'' \<and> take 1 cs = ''(''
      then (case key_rest (drop 1 cs) of
              Some rest \<Rightarrow> drop_keys n rest
            | None \<Rightarrow> c # drop_keys n cs)
      else c # drop_keys n cs)"

definition config_accepts :: "string \<Rightarrow> bool" where
  "config_accepts v =
     (CHR ''%'' \<notin> set (drop_keys (length v) (drop_escaped v)))"

text \<open>
  The clock counts seconds of the local calendar from 1970-01-01; a \<open>datetime\<close> holds the
  years 1 to 9999, and \<open>datetime.now() + timedelta(...)\<close> raises \<open>OverflowError\<close> outside.
\<close>

definition datetime_ok :: "real \<Rightarrow> bool" where
  "datetime_ok t = (- 62135596800 \<le> t \<and> t < 253402300800)"

text \<open>
  \<open>save_token_to_config\<close>: everything happens inside one \<open>try\<close>, so the first statement
  that raises ends it. Of its effects the new expiry is kept; the contents of
  \<open>config.ini\<close> are outside the model, and the write of the file comes after the expiry
  is stored.
\<close>

definition save_token_to_config :: "string \<Rightarrow> string option \<Rightarrow> int option \<Rightarrow> state \<Rightarrow> state" where
  "save_token_to_config access_token refresh_token expires_in s =
     (if \<not> config_accepts access_token then s
      else if (case refresh_token of
                 None \<Rightarrow> False
               | Some rt \<Rightarrow> rt \<noteq> [] \<and> \<not> config_accepts rt) then s
      else
        (case expires_in of
           None \<Rightarrow> s
         | Some n \<Rightarrow>
             if n = 0 then s
             else if \<not> datetime_ok (clock s + real_of_int n) then s
             else s\<lparr>token_expires_at := Some (clock s + real_of_int n)\<rparr>))"

definition refresh_access_token :: "env \<Rightarrow> state \<Rightarrow> bool \<times> state" where
  "refresh_access_token E s0 =
     (let s = s0\<lparr>trace := RefreshCalled # trace s0\<rparr> in
      if hh_refresh_token s = [] then (False, s)
      else
        (case make_request E (PostTokenRefresh (hh_refresh_token s)) s of
           (Inl e, s1) \<Rightarrow> (False, send_telegram_message E NoteError s1)
         | (Inr None, s1) \<Rightarrow> (False, s1)
         | (Inr (Some r), s1) \<Rightarrow>
             if \<not> response_ok r then (False, s1)
             else if status_code r = 200 then
               (case body r of
                  NotJson \<Rightarrow> (False, send_telegram_message E NoteError s1)
                | TokenData access_token refresh_token expires_in \<Rightarrow>
                    if truthy access_token then
                      (let s2 = save_token_to_config
                                  (case access_token of None \<Rightarrow> [] | Some a \<Rightarrow> a)
                                  refresh_token expires_in s1;
                           s3 = s2\<lparr>hh_access_token := access_token\<rparr>;
                           s4 = (case refresh_token of
                                   None \<Rightarrow> s3
                                 | Some rt \<Rightarrow>
                                     if rt = [] then s3 else s3\<lparr>hh_refresh_token := rt\<rparr>)
                       in (True, send_telegram_message E NoteLog s4))
                    else (False, send_telegram_message E NoteError s1)
                | _ \<Rightarrow> (False, send_telegram_message E NoteError s1))
             else (False, send_telegram_message E NoteError s1)))"

text \<open>The headers are determined by the bearer token; \<open>Inl AuthError\<close> is the raised exception.\<close>

definition get_auth_headers :: "env \<Rightarrow> state \<Rightarrow> (py_error + string option) \<times> state" where
  "get_auth_headers E s =
     (if is_token_expired s then
        (case refresh_access_token E s of
           (False, s1) \<Rightarrow> (Inl AuthError, s1)
         | (True, s1) \<Rightarrow> (Inr (hh_access_token s1), s1))
      else (Inr (hh_access_token s), s))"

subsection \<open>Access test\<close>

datatype api_message =
    TokenMissing
  | NoResponse
  | EmployerConfirmed
  | NotEmployer
  | TokenInvalid
  | Forbidden
  | EndpointNotFound
  | ApiError int
  | TestException

text \<open>
  \<open>test_api_access\<close> calls itself after a successful refresh, with no bound of its own.
  The fuel bounds the depth of that recursion; \<open>None\<close> means it was used up.
\<close>

fun test_api_access :: "nat \<Rightarrow> env \<Rightarrow> state \<Rightarrow> ((bool \<times> api_message) \<times> state) option" where
  "test_api_access 0 E s = None"
| "test_api_access (Suc fuel) E s =
     (if \<not> truthy (hh_access_token s) then Some ((False, TokenMissing), s)
      else
        (case get_auth_headers E s of
           (Inl e, s1) \<Rightarrow> Some ((False, TestException), s1)
         | (Inr headers, s1) \<Rightarrow>
             (case make_request E GetMe s1 of
                (Inl e, s2) \<Rightarrow> Some ((False, TestException), s2)
              | (Inr None, s2) \<Rightarrow> Some ((False, NoResponse), s2)
              | (Inr (Some r), s2) \<Rightarrow>
                  if \<not> response_ok r then Some ((False, NoResponse), s2)
                  else if status_code r = 200 then
                    (case body r of
                       NotJson \<Rightarrow> Some ((False, TestException), s2)
                     | MeData employer_id is_employer \<Rightarrow>
                         if is_employer then Some ((True, EmployerConfirmed), s2)
                         else Some ((False, NotEmployer), s2)
                     | _ \<Rightarrow> Some ((False, NotEmployer), s2))
                  else if status_code r = 401 then
                    (if hh_refresh_token s2 \<noteq> [] then
                       (case refresh_access_token E s2 of
                          (True, s3) \<Rightarrow> test_api_access fuel E s3
                        | (False, s3) \<Rightarrow> Some ((False, TokenInvalid), s3))
                     else Some ((False, TokenInvalid), s2))
                  else if status_code r = 403 then Some ((False, Forbidden), s2)
                  else if status_code r = 404 then Some ((False, EndpointNotFound), s2)
                  else Some ((False, ApiError (status_code r)), s2))))"

subsection \<open>Fetching applications\<close>

record application =
  app_negotiation :: negotiation
  app_vacancy_name :: string

text \<open>\<open>response.json().get('items', [])\<close>; \<open>None\<close> is the exception of \<open>json()\<close>.\<close>

definition vacancy_items :: "body \<Rightarrow> vacancy list option" where
  "vacancy_items b =
     (case b of NotJson \<Rightarrow> None | VacancyItems xs \<Rightarrow> Some xs | _ \<Rightarrow> Some [])"

definition negotiation_items :: "body \<Rightarrow> negotiation list option" where
  "negotiation_items b =
     (case b of NotJson \<Rightarrow> None | NegotiationItems xs \<Rightarrow> Some xs | _ \<Rightarrow> Some [])"

definition employer_id_of :: "body \<Rightarrow> string option option" where
  "employer_id_of b =
     (case b of NotJson \<Rightarrow> None | MeData employer_id is_employer \<Rightarrow> Some employer_id
      | _ \<Rightarrow> Some None)"

text \<open>The inner loop over one page of negotiations: keep the ids the ledger does not hold.\<close>

definition new_applications :: "pystr set \<Rightarrow> string \<Rightarrow> negotiation list \<Rightarrow> application list" where
  "new_applications ids name negotiations =
     map (\<lambda>n. \<lparr>app_negotiation = n, app_vacancy_name = name\<rparr>)
       (filter (\<lambda>n. neg_id n \<noteq> [] \<and> neg_id n \<notin> ids) negotiations)"

text \<open>The loop over the vacancies of the one page that was read.\<close>

fun fetch_negotiations ::
  "env \<Rightarrow> vacancy list \<Rightarrow> application list \<Rightarrow> state \<Rightarrow> application list \<times> state" where
  "fetch_negotiations E [] applications s = (applications, s)"
| "fetch_negotiations E (v # vs) applications s =
     (case vacancy_id v of
        None \<Rightarrow> fetch_negotiations E vs applications s
      | Some vid \<Rightarrow>
          if vid = [] then fetch_negotiations E vs applications s
          else
            (case make_request E (GetNegotiations vid 100 0) s of
               (Inl e, s1) \<Rightarrow> fetch_negotiations E vs applications s1
             | (Inr None, s1) \<Rightarrow> fetch_negotiations E vs applications s1
             | (Inr (Some r), s1) \<Rightarrow>
                 if status_code r = 200 then
                   (case negotiation_items (body r) of
                      None \<Rightarrow> fetch_negotiations E vs applications s1
                    | Some negotiations \<Rightarrow>
                        fetch_negotiations E vs
                          (applications @ new_applications (processed_ids s1) (vacancy_name v) negotiations)
                          s1)
                 else fetch_negotiations E vs applications s1))"

definition get_hh_applications :: "env \<Rightarrow> state \<Rightarrow> application list \<times> state" where
  "get_hh_applications E s =
     (if \<not> truthy (hh_access_token s) then ([], send_telegram_message E NoteError s)
      else
        (case get_auth_headers E s of
           (Inl e, s1) \<Rightarrow> ([], send_telegram_message E NoteError s1)
         | (Inr headers, s1) \<Rightarrow>
             (case make_request E GetMe s1 of
                (Inl e, s2) \<Rightarrow> ([], send_telegram_message E NoteError s2)
              | (Inr None, s2) \<Rightarrow> ([], send_telegram_message E NoteError s2)
              | (Inr (Some me), s2) \<Rightarrow>
                  if status_code me \<noteq> 200 then ([], send_telegram_message E NoteError s2)
                  else
                    (case employer_id_of (body me) of
                       None \<Rightarrow> ([], send_telegram_message E NoteError s2)
                     | Some None \<Rightarrow> ([], send_telegram_message E NoteError s2)
                     | Some (Some employer_id) \<Rightarrow>
                         if employer_id = [] then ([], send_telegram_message E NoteError s2)
                         else
                           (case make_request E (GetVacancies employer_id 100 0) s2 of
                              (Inl e, s3) \<Rightarrow> ([], send_telegram_message E NoteError s3)
                            | (Inr None, s3) \<Rightarrow> ([], send_telegram_message E NoteError s3)
                            | (Inr (Some vr), s3) \<Rightarrow>
                                if status_code vr \<noteq> 200
                                then ([], send_telegram_message E NoteError s3)
                                else
                                  (case vacancy_items (body vr) of
                                     None \<Rightarrow> ([], send_telegram_message E NoteError s3)
                                   | Some vacancies \<Rightarrow>
                                       if vacancies = [] then ([], s3)
                                       else fetch_negotiations E vacancies [] s3))))))"

subsection \<open>Delivery and the ledger\<close>






subsection \<open>Reading and compacting the ledger file\<close>

text \<open>
  Read in text mode, the bytes are decoded and \<open>\\r\\n\<close> and \<open>\\r\<close> arrive as \<open>\\n\<close>;
  \<open>readlines\<close> and iteration split after each \<open>\\n\<close> and keep it. Written in text mode
  on a POSIX system, \<open>\\n\<close> stays as it is.
\<close>

fun universal_newlines :: "pystr \<Rightarrow> pystr" where
  "universal_newlines [] = []"
| "universal_newlines [c] = (if c = 13 then [10] else [c])"
| "universal_newlines (c # d # cs) =
     (if c = 13 then
        (if d = 10 then 10 # universal_newlines cs
         else 10 # universal_newlines (d # cs))
      else c # universal_newlines (d # cs))"

fun split_keepends :: "pystr \<Rightarrow> pystr list" where
  "split_keepends [] = []"
| "split_keepends (c # cs) =
     (if c = 10 then [c] # split_keepends cs
      else (case split_keepends cs of
              [] \<Rightarrow> [[c]]
            | l # ls \<Rightarrow> (c # l) # ls))"

definition readlines :: "pystr \<Rightarrow> pystr list" where
  "readlines content = split_keepends (universal_newlines content)"

text \<open>
  \<open>str.strip()\<close> removes white space at both ends: the code points for which
  \<open>str.isspace\<close> holds.
\<close>

definition is_space :: "nat \<Rightarrow> bool" where
  "is_space c =
     (c \<in> {0x09, 0x0A, 0x0B, 0x0C, 0x0D, 0x1C, 0x1D, 0x1E, 0x1F, 0x20, 0x85, 0xA0, 0x1680,
            0x2000, 0x2001, 0x2002, 0x2003, 0x2004, 0x2005, 0x2006, 0x2007, 0x2008, 0x2009,
            0x200A, 0x2028, 0x2029, 0x202F, 0x205F, 0x3000})"

definition strip :: "pystr \<Rightarrow> pystr" where
  "strip l = rev (dropWhile is_space (rev (dropWhile is_space l)))"

text \<open>\<open>set(line.strip() for line in lines if line.strip())\<close>\<close>

definition ids_of_lines :: "pystr list \<Rightarrow> pystr set" where
  "ids_of_lines ls = set (filter (\<lambda>l. l \<noteq> []) (map strip ls))"

text \<open>
  \<open>load_processed_ids\<close>: no file gives the empty set, and so does a file that does not
  decode, through the \<open>except\<close> of the method.
\<close>

definition load_processed_ids :: "env \<Rightarrow> state \<Rightarrow> pystr set" where
  "load_processed_ids E s =
     (case ledger_file s of
        None \<Rightarrow> {}
      | Some raw \<Rightarrow>
          (case decode E raw of
             None \<Rightarrow> {}
           | Some content \<Rightarrow> ids_of_lines (readlines content)))"


definition today :: "state \<Rightarrow> int" where
  "today s = \<lfloor>clock s / 86400\<rfloor>"

definition max_ledger_bytes :: nat where
  "max_ledger_bytes = 10 * 1024 * 1024"

definition max_ledger_lines :: nat where
  "max_ledger_lines = 10000"

text \<open>\<open>lines[-10000:] if len(lines) > 10000 else lines\<close>\<close>

definition keep_last :: "pystr list \<Rightarrow> pystr list" where
  "keep_last ls =
     (if length ls > max_ledger_lines then drop (length ls - max_ledger_lines) ls else ls)"

text \<open>
  \<open>f.writelines(lines)\<close> on a file just opened with \<open>'w'\<close>: the lines are written one by
  one; a line that cannot be encoded raises, and what was written before it stays. The
  result is the file's bytes and whether all lines went through.
\<close>

fun write_lines :: "env \<Rightarrow> pystr list \<Rightarrow> bytes \<times> bool" where
  "write_lines E [] = ([], True)"
| "write_lines E (l # ls) =
     (case encode E l of
        None \<Rightarrow> ([], False)
      | Some b \<Rightarrow> (case write_lines E ls of (bs, ok) \<Rightarrow> (b @ bs, ok)))"

text \<open>
  The backup step of \<open>cleanup_old_processed_ids\<close>: when no backup of the day exists, the
  backup file is created and \<open>dst.write(src.read())\<close> fills it. When reading or encoding
  raises, the backup stays empty and the exception ends the method (\<open>Inl\<close>).
\<close>

definition write_backup :: "env \<Rightarrow> bytes \<Rightarrow> state \<Rightarrow> state + state" where
  "write_backup E raw s =
     (case backups s (today s) of
        Some b \<Rightarrow> Inr s
      | None \<Rightarrow>
          (case decode E raw of
             None \<Rightarrow> Inl (s\<lparr>backups := (backups s)(today s \<mapsto> [])\<rparr>)
           | Some content \<Rightarrow>
               (case encode E (universal_newlines content) of
                  None \<Rightarrow> Inl (s\<lparr>backups := (backups s)(today s \<mapsto> [])\<rparr>)
                | Some copy \<Rightarrow> Inr (s\<lparr>backups := (backups s)(today s \<mapsto> copy)\<rparr>))))"

text \<open>
  \<open>cleanup_old_processed_ids\<close>: the whole body is inside one \<open>try\<close>; every exception is
  logged and ends the method with what was done so far. The set in memory is replaced
  only after the file was rewritten in full.
\<close>

definition cleanup_old_processed_ids :: "env \<Rightarrow> state \<Rightarrow> state" where
  "cleanup_old_processed_ids E s =
     (case ledger_file s of
        None \<Rightarrow> s
      | Some raw \<Rightarrow>
          (case write_backup E raw s of
             Inl s1 \<Rightarrow> s1
           | Inr s1 \<Rightarrow>
               (let file_size = length raw in
                if file_size > max_ledger_bytes then
                  (case decode E raw of
                     None \<Rightarrow> s1
                   | Some content \<Rightarrow>
                       (let keep_lines = keep_last (readlines content) in
                        case write_lines E keep_lines of
                          (written, False) \<Rightarrow> s1\<lparr>ledger_file := Some written\<rparr>
                        | (written, True) \<Rightarrow>
                            s1\<lparr>ledger_file := Some written,
                               processed_ids := ids_of_lines keep_lines\<rparr>))
                else s1)))"

subsection \<open>Reading the trace\<close>


fun starts :: "event list \<Rightarrow> real list" where
  "starts [] = []"
| "starts (Sent t req # es) = t # starts es"
| "starts (e # es) = starts es"

fun sent_requests :: "event list \<Rightarrow> request list" where
  "sent_requests [] = []"
| "sent_requests (Sent t req # es) = req # sent_requests es"
| "sent_requests (e # es) = sent_requests es"

fun refreshes :: "event list \<Rightarrow> nat" where
  "refreshes [] = 0"
| "refreshes (RefreshCalled # es) = Suc (refreshes es)"
| "refreshes (e # es) = refreshes es"

fun successes :: "event list \<Rightarrow> nat" where
  "successes [] = 0"
| "successes (CreateLeadReturned i ok # es) = (if ok then Suc (successes es) else successes es)"
| "successes (e # es) = successes es"

fun leads :: "event list \<Rightarrow> pystr list" where
  "leads [] = []"
| "leads (CreateLeadCalled i # es) = i # leads es"
| "leads (e # es) = leads es"

text \<open>The state right after one paced call of \<open>session.request\<close>.\<close>

definition sent :: "env \<Rightarrow> request \<Rightarrow> state \<Rightarrow> state" where
  "sent E req s = snd (session_request E req (rate_limit s))"

text \<open>The seconds a rate-limit response asks for, when the code accepts them.\<close>

definition hint_seconds :: "hint \<Rightarrow> int option" where
  "hint_seconds h =
     (case h of NoHeader \<Rightarrow> Some retry_delay
      | Seconds n \<Rightarrow> if n < 0 then None else Some n
      | NotInt \<Rightarrow> None)"

subsection \<open>Pacing\<close>

text \<open>
  Start times, newest first, are paced when each is at least \<open>min_request_interval\<close>
  after the one before it.
\<close>

fun paced :: "real list \<Rightarrow> bool" where
  "paced [] = True"
| "paced [t] = True"
| "paced (t # u # ts) = (u + min_request_interval \<le> t \<and> paced (u # ts))"

text \<open>
  What \<open>rate_limit\<close> relies on: the calls made so far are paced and none started after
  the stamp \<open>last_request_time\<close>. A new object, with no call made, satisfies it.
\<close>

definition pacing_inv :: "state \<Rightarrow> bool" where
  "pacing_inv s =
     (paced (starts (trace s)) \<and>
      (case starts (trace s) of [] \<Rightarrow> True | t # ts \<Rightarrow> t \<le> last_request_time s))"

text \<open>
  A sequence of calls through \<open>make_request\<close>; before each call the clock moves by the
  time the caller spent elsewhere.
\<close>

fun run_calls :: "env \<Rightarrow> (real \<times> request) list \<Rightarrow> state \<Rightarrow> state" where
  "run_calls E [] s = s"
| "run_calls E ((idle, req) # calls) s =
     run_calls E calls (snd (make_request E req (s\<lparr>clock := clock s + idle\<rparr>)))"

subsection \<open>What the transport does not touch\<close>

definition transport_event :: "event \<Rightarrow> bool" where
  "transport_event e = (case e of Slept y d \<Rightarrow> True | Sent t req \<Rightarrow> True | _ \<Rightarrow> False)"

text \<open>
  What a call of the transport leaves alone: everything but the clock, the stamp, the
  call counter and the trace, which only grows by sleeps and calls.
\<close>

definition transport_frame :: "state \<Rightarrow> state \<Rightarrow> bool" where
  "transport_frame s s' =
     (hh_access_token s' = hh_access_token s \<and>
      hh_refresh_token s' = hh_refresh_token s \<and>
      token_expires_at s' = token_expires_at s \<and>
      processed_ids s' = processed_ids s \<and>
      ledger_file s' = ledger_file s \<and>
      backups s' = backups s \<and>
      n_appends s' = n_appends s \<and>
      (\<exists>es. trace s' = es @ trace s \<and> list_all transport_event es))"

text \<open>
  Lines as \<open>split_keepends\<close> makes them: not empty, a line feed only at the end, and at
  the end of every line but the last.
\<close>

fun line_list :: "pystr list \<Rightarrow> bool" where
  "line_list [] = True"
| "line_list [l] = (l \<noteq> [] \<and> 10 \<notin> set (butlast l))"
| "line_list (l # k # ls) =
     (l \<noteq> [] \<and> 10 \<notin> set (butlast l) \<and> last l = 10 \<and> line_list (k # ls))"

subsection \<open>What one fetch enumerates\<close>

text \<open>
  The applications that come from one posting when only the first 100 of its
  negotiations are read.
\<close>

definition page_one_of ::
  "(string \<Rightarrow> negotiation list) \<Rightarrow> pystr set \<Rightarrow> vacancy \<Rightarrow> application list" where
  "page_one_of negotiations ids v =
     (case vacancy_id v of
        None \<Rightarrow> []
      | Some vid \<Rightarrow>
          if vid = [] then []
          else new_applications ids (vacancy_name v) (take 100 (negotiations vid)))"

text \<open>A request that asks for the first page, at the page size the code uses, or for no page at all.\<close>

definition first_page_request :: "request \<Rightarrow> bool" where
  "first_page_request req =
     (case req of
        GetVacancies employer per_page page \<Rightarrow> per_page = 100 \<and> page = 0
      | GetNegotiations vid per_page page \<Rightarrow> per_page = 100 \<and> page = 0
      | _ \<Rightarrow> True)"

text \<open>The negotiation requests one pass over a list of postings makes, in order.\<close>

definition negotiation_requests :: "vacancy list \<Rightarrow> request list" where
  "negotiation_requests vs =
     concat (map (\<lambda>v. case vacancy_id v of
                         None \<Rightarrow> []
                       | Some vid \<Rightarrow> if vid = [] then [] else [GetNegotiations vid 100 0]) vs)"

text \<open>From \<open>s\<close> to \<open>s'\<close> the requests sent are all for first pages.\<close>

definition sends_first_pages :: "state \<Rightarrow> state \<Rightarrow> bool" where
  "sends_first_pages s s' =
     (\<exists>new. sent_requests (trace s') = new @ sent_requests (trace s)
            \<and> list_all first_page_request new)"

subsection \<open>What the ledger claims observe\<close>

text \<open>
  The part of the state the deduplication is about: the set, the file, the count of
  appends, and the leads and successes logged so far.
\<close>

definition ledger_view :: "state \<Rightarrow> pystr set \<times> bytes option \<times> nat \<times> pystr list \<times> nat" where
  "ledger_view s =
     (processed_ids s, ledger_file s, n_appends s, leads (trace s), successes (trace s))"


subsection \<open>What the backup step leaves\<close>

text \<open>The bytes of the backup of the day after the backup step of the cleanup.\<close>

definition backup_of :: "env \<Rightarrow> bytes \<Rightarrow> state \<Rightarrow> bytes" where
  "backup_of E raw s =
     (case backups s (today s) of
        Some b \<Rightarrow> b
      | None \<Rightarrow>
          (case decode E raw of
             None \<Rightarrow> []
           | Some content \<Rightarrow>
               (case encode E (universal_newlines content) of
                  None \<Rightarrow> []
                | Some copy \<Rightarrow> copy)))"

subsection \<open>What a cycle attempts and records\<close>









subsection \<open>Cycles and restarts\<close>








subsection \<open>Concrete environments and states\<close>

definition reply :: "int \<Rightarrow> body \<Rightarrow> response" where
  "reply code b = \<lparr>status_code = code, retry_after = NoHeader, body = b\<rparr>"


text \<open>
  The ASCII codec: bytes and code points below 128 stand for each other, anything else
  raises. UTF-8 agrees with it on what it accepts.
\<close>

definition ascii_decode :: "bytes \<Rightarrow> pystr option" where
  "ascii_decode raw =
     (if list_all (\<lambda>c. of_char c < (128 :: nat)) raw then Some (map of_char raw) else None)"

definition ascii_encode :: "pystr \<Rightarrow> bytes option" where
  "ascii_encode content =
     (if list_all (\<lambda>n. n < 128) content then Some (map char_of content) else None)"

text \<open>A string literal as text.\<close>

definition as_text :: "string \<Rightarrow> pystr" where
  "as_text cs = map of_char cs"

text \<open>An environment that plays a list of outcomes, one per call, whatever the request.\<close>

definition scripted :: "outcome list \<Rightarrow> env" where
  "scripted outs =
     \<lparr>respond = (\<lambda>k req. if k < length outs then outs ! k else ConnFail),
      latency = (\<lambda>k. 0),
      append_ok = (\<lambda>k. True),
      decode = ascii_decode,
      encode = ascii_encode\<rparr>"

definition state0 :: state where
  "state0 =
     \<lparr>clock = 1700000000, last_request_time = 0, n_calls = 0, n_appends = 0, trace = [],
      hh_access_token = Some ''token'', hh_refresh_token = ''refresh'',
      token_expires_at = None, processed_ids = {}, ledger_file = None,
      backups = (\<lambda>d. None)\<rparr>"

text \<open>
  An upstream that answers every \<open>/me\<close> with 401 and every token refresh with a new token.
\<close>

definition unauthorized_upstream :: env where
  "unauthorized_upstream =
     \<lparr>respond = (\<lambda>k req. case req of
          GetMe \<Rightarrow> Resp (reply 401 NotJson)
        | PostTokenRefresh t \<Rightarrow> Resp (reply 200 (TokenData (Some ''fresh'') None None))
        | _ \<Rightarrow> Resp (reply 200 NotJson)),
      latency = (\<lambda>k. 0),
      append_ok = (\<lambda>k. True),
      decode = ascii_decode,
      encode = ascii_encode\<rparr>"

text \<open>
  A well-behaved HeadHunter: it answers every request with status 200 and serves its
  postings and, per posting, its negotiations in pages of the size asked for.
\<close>

definition page_of :: "'a list \<Rightarrow> nat \<Rightarrow> nat \<Rightarrow> 'a list" where
  "page_of xs per_page page = take per_page (drop (page * per_page) xs)"

definition hh_answer :: "vacancy list \<Rightarrow> (string \<Rightarrow> negotiation list) \<Rightarrow> request \<Rightarrow> response" where
  "hh_answer vacancies negotiations req =
     (case req of
        GetMe \<Rightarrow> reply 200 (MeData (Some ''employer'') True)
      | GetVacancies employer per_page page \<Rightarrow>
          reply 200 (VacancyItems (page_of vacancies per_page page))
      | GetNegotiations vid per_page page \<Rightarrow>
          reply 200 (NegotiationItems (page_of (negotiations vid) per_page page))
      | _ \<Rightarrow> reply 200 NotJson)"

definition hh_upstream :: "vacancy list \<Rightarrow> (string \<Rightarrow> negotiation list) \<Rightarrow> env" where
  "hh_upstream vacancies negotiations =
     \<lparr>respond = (\<lambda>k req. Resp (hh_answer vacancies negotiations req)),
      latency = (\<lambda>k. 0),
      append_ok = (\<lambda>k. True),
      decode = ascii_decode,
      encode = ascii_encode\<rparr>"

text \<open>Negotiations with the ids 7, 77, 777, ... and an account with one posting.\<close>

definition numbered :: "nat \<Rightarrow> negotiation" where
  "numbered k = \<lparr>neg_id = replicate (Suc k) 55, resume_ok = True\<rparr>"

definition one_posting :: "vacancy list" where
  "one_posting = [\<lparr>vacancy_id = Some ''v1'', vacancy_name = ''job''\<rparr>]"

text \<open>A token that expires in two minutes, and one that expires in an hour.\<close>

definition expiring_state :: state where
  "expiring_state = state0\<lparr>token_expires_at := Some (1700000000 + 2 * 60)\<rparr>"

definition valid_state :: state where
  "valid_state = state0\<lparr>token_expires_at := Some (1700000000 + 3600)\<rparr>"

text \<open>
  A ledger of 10001 lines with the ids 7, 77, 777, ... in this order, about 50 MB; the same
  with a backup of the day in place; and three small ledgers: one with a \<open>\\r\\n\<close> line
  end, one that ends in a byte no codec here decodes, one plain.
\<close>

definition ledger_line :: "nat \<Rightarrow> pystr" where
  "ledger_line k = neg_id (numbered k) @ [10]"

definition crowded_text :: pystr where
  "crowded_text = concat (map ledger_line [0..<10001])"

definition crowded_state :: state where
  "crowded_state =
     state0\<lparr>ledger_file := Some (map char_of crowded_text),
            processed_ids := (\<lambda>k. neg_id (numbered k)) ` {0..<10001}\<rparr>"

definition stale_state :: state where
  "stale_state =
     crowded_state\<lparr>backups := (backups crowded_state)(today crowded_state \<mapsto> ''41\<newline>'')\<rparr>"

definition dos_state :: state where
  "dos_state = state0\<lparr>ledger_file := Some [CHR ''4'', CHR ''1'', CHR 0x0D, CHR 0x0A],
                      processed_ids := {as_text ''41''}\<rparr>"

definition torn_state :: state where
  "torn_state = state0\<lparr>ledger_file := Some [CHR ''4'', CHR ''1'', CHR 0x0A, CHR 0xFF],
                       processed_ids := {as_text ''41''}\<rparr>"

definition small_state :: state where
  "small_state = state0\<lparr>ledger_file := Some ''41\<newline>42\<newline>'',
                        processed_ids := {as_text ''41'', as_text ''42''}\<rparr>"









section \<open>The transport: retries and rate limits\<close>

declare make_request_from.simps [simp del]


lemma n_calls_rate_limit: "n_calls (rate_limit s) = n_calls s"
  by (simp add: rate_limit_def sleep_def Let_def)


lemma mr_exhausted: "max_retries \<le> a \<Longrightarrow> make_request_from E req a s = (Inr None, s)"
  by (simp add: make_request_from.simps)

lemma mr_step:
  "a < max_retries \<Longrightarrow> make_request_from E req a s =
     (case session_request E req (rate_limit s) of
           (ConnFail, s2) \<Rightarrow>
             if a = max_retries - 1 then (Inr None, s2)
             else make_request_from E req (a + 1)
                    (sleep Backoff (real_of_int (retry_delay * (int a + 1))) s2)
         | (Resp r, s2) \<Rightarrow>
             if status_code r = 429 then
               (case retry_after r of
                  NotInt \<Rightarrow> (Inl ValueError, s2)
                | NoHeader \<Rightarrow>
                    make_request_from E req (a + 1)
                      (sleep RateLimited (real_of_int retry_delay) s2)
                | Seconds n \<Rightarrow>
                    if n < 0 then (Inl ValueError, s2)
                    else make_request_from E req (a + 1)
                           (sleep RateLimited (real_of_int n) s2))
             else (Inr (Some r), s2))"
  by (subst make_request_from.simps) simp



lemma session_request_eq:
  "session_request E req (rate_limit s) = (respond E (n_calls s) req, sent E req s)"
  by (simp add: sent_def session_request_def n_calls_rate_limit)



lemma mr_connfail:
  "a < max_retries \<Longrightarrow> respond E (n_calls s) req = ConnFail \<Longrightarrow>
   make_request_from E req a s =
     (if a = max_retries - 1 then (Inr None, sent E req s)
      else make_request_from E req (a + 1)
             (sleep Backoff (real_of_int (retry_delay * (int a + 1))) (sent E req s)))"
  by (simp add: mr_step session_request_eq)

lemma mr_response:
  "a < max_retries \<Longrightarrow> respond E (n_calls s) req = Resp r \<Longrightarrow> status_code r \<noteq> 429 \<Longrightarrow>
   make_request_from E req a s = (Inr (Some r), sent E req s)"
  by (simp add: mr_step session_request_eq)

lemma mr_429:
  "a < max_retries \<Longrightarrow> respond E (n_calls s) req = Resp r \<Longrightarrow> status_code r = 429 \<Longrightarrow>
   make_request_from E req a s =
     (case retry_after r of
                  NotInt \<Rightarrow> (Inl ValueError, sent E req s)
                | NoHeader \<Rightarrow>
                    make_request_from E req (a + 1)
                      (sleep RateLimited (real_of_int retry_delay) (sent E req s))
                | Seconds n \<Rightarrow>
                    if n < 0 then (Inl ValueError, sent E req s)
                    else make_request_from E req (a + 1)
                           (sleep RateLimited (real_of_int n) (sent E req s)))"
  by (simp add: mr_step session_request_eq)


lemma mr_429_wait:
  "a < max_retries \<Longrightarrow> respond E (n_calls s) req = Resp r \<Longrightarrow> status_code r = 429 \<Longrightarrow>
   hint_seconds (retry_after r) = Some d \<Longrightarrow>
   make_request_from E req a s =
     make_request_from E req (a + 1) (sleep RateLimited (real_of_int d) (sent E req s))"
  by (auto simp: mr_429 hint_seconds_def split: hint.splits if_splits)




lemma respond_scripted: "respond (scripted outs) k req = (if k < length outs then outs ! k else ConnFail)"
  by (simp add: scripted_def)





section \<open>Pacing of outbound calls\<close>

lemma pacing_inv_sleep: "pacing_inv s \<Longrightarrow> pacing_inv (sleep y d s)"
  by (simp add: pacing_inv_def sleep_def split: list.splits)

lemma pacing_inv_idle: "pacing_inv s \<Longrightarrow> pacing_inv (s\<lparr>clock := c\<rparr>)"
  by (simp add: pacing_inv_def split: list.splits)

lemma rate_limit_stamp:
  "last_request_time (rate_limit s) = clock (rate_limit s)"
  "last_request_time s + min_request_interval \<le> clock (rate_limit s)"
  "starts (trace (rate_limit s)) = starts (trace s)"
  by (auto simp: rate_limit_def sleep_def Let_def)

lemma pacing_inv_sent: "pacing_inv s \<Longrightarrow> pacing_inv (sent E req s)"
proof -
  assume inv: "pacing_inv s"
  let ?r = "rate_limit s"
  have st: "starts (trace (sent E req s)) = clock ?r # starts (trace s)"
    by (simp add: sent_def session_request_def rate_limit_stamp)
  have lrt: "last_request_time (sent E req s) = clock ?r"
    by (simp add: sent_def session_request_def rate_limit_stamp)
  show ?thesis
  proof (cases "starts (trace s)")
    case Nil
    then show ?thesis by (simp add: pacing_inv_def st lrt)
  next
    case (Cons t ts)
    then have "t \<le> last_request_time s" "paced (t # ts)"
      using inv by (simp_all add: pacing_inv_def)
    then have "t + min_request_interval \<le> clock ?r" "paced (t # ts)"
      using rate_limit_stamp(2)[of s] by simp_all
    then show ?thesis by (simp add: pacing_inv_def st lrt Cons)
  qed
qed

lemma pacing_inv_make_request_from:
  "pacing_inv s \<Longrightarrow> pacing_inv (snd (make_request_from E req a s))"
proof (induction E req a s rule: make_request_from.induct)
  case (1 E req attempt s)
  note inv = pacing_inv_sent[OF "1.prems", of E req]
  show ?case
  proof (cases "max_retries \<le> attempt")
    case True
    then show ?thesis using "1.prems" by (simp add: mr_exhausted)
  next
    case False
    then have lt: "attempt < max_retries" by simp
    note IH = "1.IH"[OF False, unfolded session_request_eq]
    show ?thesis
    proof (cases "respond E (n_calls s) req")
      case ConnFail
      then show ?thesis using lt inv IH pacing_inv_sleep
        by (auto simp: mr_connfail)
    next
      case (Resp r)
      show ?thesis
      proof (cases "status_code r = 429")
        case False
        then show ?thesis using lt Resp inv by (simp add: mr_response)
      next
        case True
        then show ?thesis using lt Resp inv IH pacing_inv_sleep
          by (auto simp: mr_429 split: hint.splits)
      qed
    qed
  qed
qed

lemma pacing_inv_run_calls: "pacing_inv s \<Longrightarrow> pacing_inv (run_calls E calls s)"
proof (induction calls arbitrary: s)
  case Nil
  then show ?case by simp
next
  case (Cons c calls)
  obtain idle req where c: "c = (idle, req)" by (cases c)
  have "pacing_inv (snd (make_request E req (s\<lparr>clock := clock s + idle\<rparr>)))"
    unfolding make_request_def
    by (rule pacing_inv_make_request_from) (rule pacing_inv_idle[OF Cons.prems])
  then show ?case using Cons.IH c by simp
qed

text \<open>
  C5. For every environment and every sequence of calls through \<open>make_request\<close>, with
  any pauses between them, the start times of the outbound calls (retries included) are
  at least \<open>min_request_interval\<close> apart: \<open>rate_limit\<close> sleeps for what is left of the
  interval since the previous stamp. The clock is the model's; a call starts at the
  instant \<open>rate_limit\<close> stamps.
\<close>

theorem make_request_calls_paced: "pacing_inv s \<Longrightarrow> paced (starts (trace (run_calls E calls s)))"
  using pacing_inv_run_calls[of s E calls] by (simp add: pacing_inv_def)

theorem make_request_calls_paced_witness:
  "pacing_inv state0
   \<and> paced (starts (trace (run_calls
         (scripted [Resp (reply 200 NotJson), Resp (reply 200 NotJson)])
         [(0, GetMe), (1 / 4, PostTelegram NoteRaw)] state0)))
   \<and> starts (trace (run_calls
         (scripted [Resp (reply 200 NotJson), Resp (reply 200 NotJson)])
         [(0, GetMe), (1 / 4, PostTelegram NoteRaw)] state0)) = [1700000001, 1700000000]"
proof -
  have inv: "pacing_inv state0" by (simp add: pacing_inv_def state0_def)
  have "starts (trace (run_calls
         (scripted [Resp (reply 200 NotJson), Resp (reply 200 NotJson)])
         [(0, GetMe), (1 / 4, PostTelegram NoteRaw)] state0)) = [1700000001, 1700000000]"
    by (simp add: make_request_def mr_step session_request_def rate_limit_def sleep_def
        Let_def scripted_def state0_def reply_def max_retries_def min_request_interval_def)
  moreover have "paced (starts (trace (run_calls
         (scripted [Resp (reply 200 NotJson), Resp (reply 200 NotJson)])
         [(0, GetMe), (1 / 4, PostTelegram NoteRaw)] state0)))"
    by (rule make_request_calls_paced[OF inv])
  ultimately show ?thesis using inv by blast
qed

section \<open>Token freshness\<close>

lemma transport_frame_refl: "transport_frame s s"
  by (simp add: transport_frame_def)

lemma transport_frame_trans:
  "transport_frame s s' \<Longrightarrow> transport_frame s' s'' \<Longrightarrow> transport_frame s s''"
  by (auto simp: transport_frame_def)

lemma transport_frame_sleep: "transport_frame s (sleep y d s)"
  by (simp add: transport_frame_def sleep_def transport_event_def)

lemma transport_frame_sent: "transport_frame s (sent E req s)"
proof -
  have "trace (sent E req s) = Sent (clock (rate_limit s)) req # trace (rate_limit s)"
    by (simp add: sent_def session_request_def)
  moreover have "\<exists>es. trace (rate_limit s) = es @ trace s \<and> list_all transport_event es"
    by (simp add: rate_limit_def sleep_def Let_def transport_event_def)
  ultimately have "\<exists>es. trace (sent E req s) = es @ trace s \<and> list_all transport_event es"
    by (auto simp: transport_event_def)
  then show ?thesis
    by (simp add: transport_frame_def sent_def session_request_def rate_limit_def sleep_def Let_def)
qed

lemma transport_frame_retry:
  "transport_frame (sleep y d (sent E req s)) s' \<Longrightarrow> transport_frame s s'"
  by (rule transport_frame_trans[OF transport_frame_sent])
     (erule transport_frame_trans[OF transport_frame_sleep])

lemma transport_frame_make_request_from:
  "transport_frame s (snd (make_request_from E req a s))"
proof (induction E req a s rule: make_request_from.induct)
  case (1 E req attempt s)
  note fs = transport_frame_sent[of s E req]
  show ?case
  proof (cases "max_retries \<le> attempt")
    case True
    then show ?thesis by (simp add: mr_exhausted transport_frame_refl)
  next
    case False
    then have lt: "attempt < max_retries" by simp
    note IH = "1.IH"[OF False, unfolded session_request_eq]
    show ?thesis
    proof (cases "respond E (n_calls s) req")
      case ConnFail
      show ?thesis
      proof (cases "attempt = max_retries - 1")
        case True
        then show ?thesis using lt ConnFail fs by (simp add: mr_connfail)
      next
        case F: False
        have "transport_frame s (snd (make_request_from E req (attempt + 1)
                (sleep Backoff (real_of_int (retry_delay * (int attempt + 1))) (sent E req s))))"
          proof (rule transport_frame_retry[of Backoff
                "real_of_int (retry_delay * (int attempt + 1))"])
            show "transport_frame
                   (sleep Backoff (real_of_int (retry_delay * (int attempt + 1))) (sent E req s))
                   (snd (make_request_from E req (attempt + 1)
                     (sleep Backoff (real_of_int (retry_delay * (int attempt + 1)))
                       (sent E req s))))"
              using IH ConnFail F by auto
          qed
        then show ?thesis using lt ConnFail F by (simp add: mr_connfail)
      qed
    next
      case (Resp r)
      show ?thesis
      proof (cases "status_code r = 429")
        case False
        then show ?thesis using lt Resp fs by (simp add: mr_response)
      next
        case True
        show ?thesis
        proof (cases "hint_seconds (retry_after r)")
          case None
          then show ?thesis using lt Resp True fs
            by (auto simp: mr_429 hint_seconds_def split: hint.splits if_splits)
        next
          case (Some d)
          have "transport_frame s (snd (make_request_from E req (attempt + 1)
                  (sleep RateLimited (real_of_int d) (sent E req s))))"
          proof (rule transport_frame_retry[of RateLimited "real_of_int d"])
            show "transport_frame (sleep RateLimited (real_of_int d) (sent E req s))
                   (snd (make_request_from E req (attempt + 1)
                     (sleep RateLimited (real_of_int d) (sent E req s))))"
              using IH Resp True Some
              by (auto simp: hint_seconds_def split: hint.splits if_splits)
          qed
          then show ?thesis using lt Resp True Some by (simp add: mr_429_wait)
        qed
      qed
    qed
  qed
qed

lemma transport_frame_make_request: "transport_frame s (snd (make_request E req s))"
  by (simp add: make_request_def transport_frame_make_request_from)

lemma transport_frame_telegram: "transport_frame s (send_telegram_message E n s)"
  by (simp add: send_telegram_message_def transport_frame_make_request)

lemma refreshes_transport: "list_all transport_event es \<Longrightarrow> refreshes (es @ tr) = refreshes tr"
  by (induction es rule: refreshes.induct) (auto simp: transport_event_def)

lemma leads_transport: "list_all transport_event es \<Longrightarrow> leads (es @ tr) = leads tr"
  by (induction es rule: leads.induct) (auto simp: transport_event_def)

lemma transport_frame_refreshes: "transport_frame s s' \<Longrightarrow> refreshes (trace s') = refreshes (trace s)"
  by (auto simp: transport_frame_def refreshes_transport)

lemma transport_frame_leads: "transport_frame s s' \<Longrightarrow> leads (trace s') = leads (trace s)"
  by (auto simp: transport_frame_def leads_transport)

lemma refreshes_telegram:
  "refreshes (trace (send_telegram_message E n s)) = refreshes (trace s)"
  by (rule transport_frame_refreshes[OF transport_frame_telegram])

lemma refreshes_refresh_access_token:
  "refreshes (trace (snd (refresh_access_token E s))) = Suc (refreshes (trace s))"
proof -
  let ?s = "s\<lparr>trace := RefreshCalled # trace s\<rparr>"
  obtain res s1 where eq: "make_request E (PostTokenRefresh (hh_refresh_token s)) ?s = (res, s1)"
    by (cases "make_request E (PostTokenRefresh (hh_refresh_token s)) ?s")
  have m: "refreshes (trace s1) = Suc (refreshes (trace s))"
    using transport_frame_refreshes[OF transport_frame_make_request,
        of E "PostTokenRefresh (hh_refresh_token s)" ?s] eq by simp
  have tr: "\<And>a b x. trace (save_token_to_config a b x s1) = trace s1"
    by (simp add: save_token_to_config_def split: option.splits)
  show ?thesis
  proof (cases "hh_refresh_token s = []")
    case True
    then show ?thesis by (simp add: refresh_access_token_def Let_def)
  next
    case False
    show ?thesis
    proof (cases res)
      case (Inl e)
      then show ?thesis using False eq m
        by (simp add: refresh_access_token_def Let_def refreshes_telegram)
    next
      case (Inr ro)
      show ?thesis
      proof (cases ro)
        case None
        then show ?thesis using False eq m Inr
          by (simp add: refresh_access_token_def Let_def)
      next
        case (Some r)
        show ?thesis
        proof (cases "body r")
          case (TokenData a b c)
          then show ?thesis using False eq m Inr Some tr
            by (simp add: refresh_access_token_def Let_def refreshes_telegram
                split: option.splits)
        qed (use False eq m Inr Some in
              \<open>simp_all add: refresh_access_token_def Let_def refreshes_telegram\<close>)
      qed
    qed
  qed
qed

lemma drop_escaped_plain: "CHR ''%'' \<notin> set v \<Longrightarrow> drop_escaped v = v"
  by (induction v rule: drop_escaped.induct) auto

lemma drop_keys_plain: "CHR ''%'' \<notin> set v \<Longrightarrow> drop_keys n v = v"
  by (induction n v rule: drop_keys.induct) auto

lemma config_accepts_plain: "CHR ''%'' \<notin> set v \<Longrightarrow> config_accepts v"
  by (simp add: config_accepts_def drop_escaped_plain drop_keys_plain)

lemma make_request_answered:
  assumes "\<And>k. respond E k req = Resp r" "status_code r \<noteq> 429"
  shows "make_request E req s = (Inr (Some r), sent E req s)"
  using assms by (simp add: make_request_def mr_response max_retries_def)

lemma sent_keeps:
  "processed_ids (sent E req s) = processed_ids s"
  "hh_access_token (sent E req s) = hh_access_token s"
  "hh_refresh_token (sent E req s) = hh_refresh_token s"
  "token_expires_at (sent E req s) = token_expires_at s"
  "ledger_file (sent E req s) = ledger_file s"
  "n_appends (sent E req s) = n_appends s"
  "backups (sent E req s) = backups s"
  using transport_frame_sent[of s E req] by (simp_all add: transport_frame_def)

lemma make_request_unreachable:
  assumes "\<And>k. respond E k req = ConnFail"
  shows "fst (make_request E req s) = Inr None"
  using assms
  by (simp add: make_request_def mr_connfail max_retries_def)

lemma refresh_unauthorized_upstream:
  assumes "hh_refresh_token s \<noteq> []"
  shows "fst (refresh_access_token unauthorized_upstream s)"
    and "hh_access_token (snd (refresh_access_token unauthorized_upstream s)) = Some ''fresh''"
proof -
  let ?E = unauthorized_upstream
  let ?s = "s\<lparr>trace := RefreshCalled # trace s\<rparr>"
  let ?r = "reply 200 (TokenData (Some ''fresh'') None None)"
  have m: "make_request ?E (PostTokenRefresh (hh_refresh_token s)) ?s
             = (Inr (Some ?r), sent ?E (PostTokenRefresh (hh_refresh_token s)) ?s)"
    by (rule make_request_answered) (simp_all add: unauthorized_upstream_def reply_def)
  have t: "\<And>n x. send_telegram_message ?E n x = sent ?E (PostTelegram n) x"
    unfolding send_telegram_message_def
    by (subst make_request_answered[where r = "reply 200 NotJson"])
       (simp_all add: unauthorized_upstream_def reply_def)
  have c: "config_accepts ''fresh''" by (rule config_accepts_plain) simp
  have eq: "refresh_access_token ?E s
        = (True, sent ?E (PostTelegram NoteLog)
             ((sent ?E (PostTokenRefresh (hh_refresh_token s)) ?s)
                \<lparr>hh_access_token := Some ''fresh''\<rparr>))"
    using assms
    by (simp add: refresh_access_token_def Let_def m t c reply_def response_ok_def truthy_def
        save_token_to_config_def)
  show "fst (refresh_access_token ?E s)" by (simp add: eq)
  show "hh_access_token (snd (refresh_access_token ?E s)) = Some ''fresh''"
    by (simp add: eq sent_keeps)
qed

text \<open>
  C6. \<open>get_auth_headers\<close> with no stored expiry, or with \<open>now < expires_at - 5 minutes\<close>,
  returns the headers of the stored token at once and changes nothing: no refresh. With
  \<open>now \<ge> expires_at - 5 minutes\<close> it calls \<open>refresh_access_token\<close> exactly once and ends
  in the state that call leaves; it returns headers exactly when the refresh succeeded, and
  then the headers of the token as it is after the refresh, and it raises when the refresh
  failed.
\<close>

theorem get_auth_headers_refresh_count:
  fixes s :: state and E :: env
  shows "(case token_expires_at s of
      None \<Rightarrow> get_auth_headers E s = (Inr (hh_access_token s), s)
    | Some expires_at \<Rightarrow>
        (clock s < expires_at - 5 * 60 \<longrightarrow>
           get_auth_headers E s = (Inr (hh_access_token s), s))
      \<and> (clock s \<ge> expires_at - 5 * 60 \<longrightarrow>
           refreshes (trace (snd (get_auth_headers E s))) = refreshes (trace s) + 1
           \<and> snd (get_auth_headers E s) = snd (refresh_access_token E s)
           \<and> fst (get_auth_headers E s)
               = (if fst (refresh_access_token E s)
                  then Inr (hh_access_token (snd (refresh_access_token E s)))
                  else Inl AuthError)))"
proof (cases "token_expires_at s")
  case None
  then show ?thesis by (simp add: get_auth_headers_def is_token_expired_def)
next
  case (Some e)
  obtain ok s1 where r: "refresh_access_token E s = (ok, s1)"
    by (cases "refresh_access_token E s")
  have "refreshes (trace s1) = Suc (refreshes (trace s))"
    using refreshes_refresh_access_token[of E s] r by simp
  then show ?thesis using Some r
    by (auto simp: get_auth_headers_def is_token_expired_def split: bool.splits)
qed

theorem get_auth_headers_refresh_count_witness:
  "fst (get_auth_headers unauthorized_upstream expiring_state) = Inr (Some ''fresh'')
   \<and> refreshes (trace (snd (get_auth_headers unauthorized_upstream expiring_state))) = 1
   \<and> fst (get_auth_headers (scripted []) expiring_state) = Inl AuthError
   \<and> refreshes (trace (snd (get_auth_headers (scripted []) expiring_state))) = 1
   \<and> get_auth_headers (scripted []) valid_state = (Inr (Some ''token''), valid_state)
   \<and> get_auth_headers (scripted []) state0 = (Inr (Some ''token''), state0)"
proof -
  have rt: "hh_refresh_token expiring_state \<noteq> []"
    by (simp add: expiring_state_def state0_def)
  note ok = refresh_unauthorized_upstream[OF rt]
  have e: "token_expires_at expiring_state = Some (1700000000 + 2 * 60)"
    "clock expiring_state = 1700000000" "refreshes (trace expiring_state) = 0"
    by (simp_all add: expiring_state_def state0_def)
  have v: "token_expires_at valid_state = Some (1700000000 + 3600)"
    "clock valid_state = 1700000000" "hh_access_token valid_state = Some ''token''"
    by (simp_all add: valid_state_def state0_def)
  have z: "token_expires_at state0 = None" "hh_access_token state0 = Some ''token''"
    by (simp_all add: state0_def)
  have a: "fst (get_auth_headers unauthorized_upstream expiring_state) = Inr (Some ''fresh'')
   \<and> refreshes (trace (snd (get_auth_headers unauthorized_upstream expiring_state))) = 1"
    using get_auth_headers_refresh_count[where s = expiring_state and E = unauthorized_upstream] ok by (auto simp: e)
  have f: "\<not> fst (refresh_access_token (scripted []) expiring_state)"
  proof -
    let ?s = "expiring_state\<lparr>trace := RefreshCalled # trace expiring_state\<rparr>"
    obtain x s1 where m: "make_request (scripted []) (PostTokenRefresh ''refresh'') ?s = (x, s1)"
      by (cases "make_request (scripted []) (PostTokenRefresh ''refresh'') ?s")
    have "x = Inr None"
      using make_request_unreachable[of "scripted []" "PostTokenRefresh ''refresh''" ?s] m
      by (simp add: respond_scripted)
    moreover have "hh_refresh_token expiring_state = ''refresh''"
      by (simp add: expiring_state_def state0_def)
    ultimately show ?thesis using m
      by (simp add: refresh_access_token_def Let_def)
  qed
  have b: "fst (get_auth_headers (scripted []) expiring_state) = Inl AuthError
   \<and> refreshes (trace (snd (get_auth_headers (scripted []) expiring_state))) = 1"
    using get_auth_headers_refresh_count[where s = expiring_state and E = "scripted []"] f by (auto simp: e)
  have c: "get_auth_headers (scripted []) valid_state = (Inr (Some ''token''), valid_state)"
    using get_auth_headers_refresh_count[where s = valid_state and E = "scripted []"] by (simp add: v)
  have d: "get_auth_headers (scripted []) state0 = (Inr (Some ''token''), state0)"
    using get_auth_headers_refresh_count[where s = state0 and E = "scripted []"] by (simp add: z)
  show ?thesis using a b c d by blast
qed

section \<open>Unauthorized answers\<close>

lemma sent_requests_sent:
  "sent_requests (trace (sent E req s)) = req # sent_requests (trace s)"
  by (simp add: sent_def session_request_def rate_limit_def sleep_def Let_def)

lemma refreshes_sent: "refreshes (trace (sent E req s)) = refreshes (trace s)"
  by (rule transport_frame_refreshes[OF transport_frame_sent])

text \<open>
  C8. The code has a branch for a 401 answer of \<open>/me\<close> that refreshes the token and calls
  \<open>test_api_access\<close> again, but the test \<open>if not response\<close> stands before it, and a
  response with status 401 is false there. So with a token that is not about to expire, a
  401 ends the test at once with the message of a missing response: one call of \<open>/me\<close>,
  no refresh, no retry.
\<close>

theorem test_api_access_unauthorized:
  assumes tok: "truthy (hh_access_token s)"
      and fresh: "\<not> is_token_expired s"
      and me: "respond E (n_calls s) GetMe = Resp r"
      and st: "status_code r = 401"
  shows "test_api_access (Suc fuel) E s = Some ((False, NoResponse), sent E GetMe s)
         \<and> refreshes (trace (sent E GetMe s)) = refreshes (trace s)
         \<and> sent_requests (trace (sent E GetMe s)) = GetMe # sent_requests (trace s)"
proof -
  have h: "get_auth_headers E s = (Inr (hh_access_token s), s)"
    using fresh by (simp add: get_auth_headers_def)
  have m: "make_request E GetMe s = (Inr (Some r), sent E GetMe s)"
    using me st by (simp add: make_request_def mr_response max_retries_def)
  have nok: "\<not> response_ok r" using st by (simp add: response_ok_def)
  show ?thesis using tok h m nok by (simp add: refreshes_sent sent_requests_sent)
qed

theorem test_api_access_unauthorized_witness:
  "test_api_access (Suc 0) unauthorized_upstream state0
     = Some ((False, NoResponse), sent unauthorized_upstream GetMe state0)
   \<and> refreshes (trace (sent unauthorized_upstream GetMe state0)) = 0
   \<and> sent_requests (trace (sent unauthorized_upstream GetMe state0)) = [GetMe]"
proof -
  have a: "truthy (hh_access_token state0)" by (simp add: state0_def truthy_def)
  have b: "\<not> is_token_expired state0" by (simp add: state0_def is_token_expired_def)
  have c: "respond unauthorized_upstream (n_calls state0) GetMe = Resp (reply 401 NotJson)"
    by (simp add: unauthorized_upstream_def)
  have d: "status_code (reply 401 NotJson) = 401" by (simp add: reply_def)
  have e: "refreshes (trace state0) = 0" "sent_requests (trace state0) = []"
    by (simp_all add: state0_def)
  show ?thesis using test_api_access_unauthorized[OF a b c d, of 0] unfolding e by blast
qed

section \<open>Fetching: one page of postings, one page of negotiations each\<close>

lemma status_hh_answer: "status_code (hh_answer vs negs req) = 200"
  by (simp add: hh_answer_def reply_def split: request.splits)

lemma make_request_hh:
  "make_request (hh_upstream vs negs) req s
     = (Inr (Some (hh_answer vs negs req)), sent (hh_upstream vs negs) req s)"
proof -
  have "respond (hh_upstream vs negs) (n_calls s) req = Resp (hh_answer vs negs req)"
    by (simp add: hh_upstream_def)
  then show ?thesis
    by (simp add: make_request_def mr_response max_retries_def status_hh_answer)
qed

lemma fetch_negotiations_hh:
  "fst (fetch_negotiations (hh_upstream vs negs) ws acc s)
     = acc @ concat (map (page_one_of negs (processed_ids s)) ws)"
proof (induction ws arbitrary: acc s)
  case Nil
  then show ?case by simp
next
  case (Cons w ws)
  show ?case
  proof (cases "vacancy_id w")
    case None
    then show ?thesis using Cons.IH by (simp add: page_one_of_def)
  next
    case (Some vid)
    show ?thesis
    proof (cases "vid = []")
      case True
      then show ?thesis using Some Cons.IH by (simp add: page_one_of_def)
    next
      case False
      have b: "body (hh_answer vs negs (GetNegotiations vid 100 0))
                 = NegotiationItems (take 100 (negs vid))"
        by (simp add: hh_answer_def reply_def page_of_def)
      have hd: "page_one_of negs (processed_ids s) w
                  = new_applications (processed_ids s) (vacancy_name w) (take 100 (negs vid))"
        using Some False by (simp add: page_one_of_def)
      show ?thesis using Some False
        by (simp add: make_request_hh status_hh_answer b negotiation_items_def
            Cons.IH hd sent_keeps)
    qed
  qed
qed

lemma get_hh_applications_hh:
  assumes tok: "truthy (hh_access_token s)"
      and fresh: "\<not> is_token_expired s"
  shows "fst (get_hh_applications (hh_upstream vs negs) s)
           = concat (map (page_one_of negs (processed_ids s)) (take 100 vs))"
proof -
  let ?E = "hh_upstream vs negs"
  have h: "get_auth_headers ?E s = (Inr (hh_access_token s), s)"
    using fresh by (simp add: get_auth_headers_def)
  have me: "body (hh_answer vs negs GetMe) = MeData (Some ''employer'') True"
    by (simp add: hh_answer_def reply_def)
  have vb: "body (hh_answer vs negs (GetVacancies ''employer'' 100 0))
              = VacancyItems (take 100 vs)"
    by (simp add: hh_answer_def reply_def page_of_def)
  show ?thesis
    using tok
    by (simp add: get_hh_applications_def h make_request_hh status_hh_answer me vb
        employer_id_of_def vacancy_items_def fetch_negotiations_hh sent_keeps)
qed

lemma numbered_eq: "numbered k = numbered j \<longleftrightarrow> k = j"
proof
  assume "numbered k = numbered j"
  then have "length (neg_id (numbered k)) = length (neg_id (numbered j))" by simp
  then show "k = j" unfolding numbered_def by simp
qed simp

lemma first_page_numbered:
  "fst (get_hh_applications
          (hh_upstream one_posting (\<lambda>vid. map numbered [0..<101])) state0)
     = new_applications {} ''job'' (map numbered [0..<100])"
proof -
  have tok: "truthy (hh_access_token state0)" by (simp add: state0_def truthy_def)
  have fresh: "\<not> is_token_expired state0" by (simp add: state0_def is_token_expired_def)
  have t: "take 100 (map numbered [0..<101]) = map numbered [0..<100]"
    by (simp add: take_map)
  have p: "processed_ids state0 = {}" by (simp add: state0_def)
  show ?thesis
    unfolding get_hh_applications_hh[OF tok fresh] p one_posting_def
    by (simp add: page_one_of_def t del: upt_rec_numeral)
qed

lemma sent_requests_make_request_from:
  "\<exists>n. sent_requests (trace (snd (make_request_from E req a s)))
         = replicate n req @ sent_requests (trace s)
       \<and> (a < max_retries \<longrightarrow> 0 < n)"
proof (induction E req a s rule: make_request_from.induct)
  case (1 E req attempt s)
  have one: "\<exists>n. sent_requests (trace (sent E req s))
                 = replicate n req @ sent_requests (trace s)
               \<and> (attempt < max_retries \<longrightarrow> 0 < n)"
    by (rule exI[of _ 1]) (simp add: sent_requests_sent)
  have more: "\<exists>k. sent_requests (trace s')
                 = replicate k req @ sent_requests (trace s)
               \<and> (attempt < max_retries \<longrightarrow> 0 < k)"
    if "\<exists>n. sent_requests (trace s')
                 = replicate n req @ sent_requests (trace (sleep y d (sent E req s)))
             \<and> (attempt + 1 < max_retries \<longrightarrow> 0 < n)" for y d s'
  proof -
    from that obtain n where "sent_requests (trace s')
                 = replicate n req @ sent_requests (trace (sleep y d (sent E req s)))"
      by blast
    then have "sent_requests (trace s') = replicate (Suc n) req @ sent_requests (trace s)"
      by (simp add: sleep_def sent_requests_sent replicate_append_same)
    then show ?thesis by blast
  qed
  show ?case
  proof (cases "max_retries \<le> attempt")
    case True
    have "sent_requests (trace s) = replicate 0 req @ sent_requests (trace s)" by simp
    then show ?thesis unfolding mr_exhausted[OF True] using True by fastforce
  next
    case False
    then have lt: "attempt < max_retries" by simp
    note IH = "1.IH"[OF False, unfolded session_request_eq]
    show ?thesis
    proof (cases "respond E (n_calls s) req")
      case ConnFail
      show ?thesis
      proof (cases "attempt = max_retries - 1")
        case True
        have "make_request_from E req attempt s = (Inr None, sent E req s)"
          using lt ConnFail True by (simp add: mr_connfail)
        then show ?thesis using one by simp
      next
        case F: False
        have eq: "make_request_from E req attempt s = make_request_from E req (attempt + 1)
                (sleep Backoff (real_of_int (retry_delay * (int attempt + 1))) (sent E req s))"
          using lt ConnFail F by (simp add: mr_connfail)
        show ?thesis unfolding eq
          by (rule more) (rule IH(3)[OF refl ConnFail F])
      qed
    next
      case (Resp r)
      show ?thesis
      proof (cases "status_code r = 429")
        case False
        have "make_request_from E req attempt s = (Inr (Some r), sent E req s)"
          using lt Resp False by (simp add: mr_response)
        then show ?thesis using one by simp
      next
        case True
        show ?thesis
        proof (cases "retry_after r")
          case NotInt
          have "make_request_from E req attempt s = (Inl ValueError, sent E req s)"
            using lt Resp True NotInt by (simp add: mr_429)
          then show ?thesis using one by simp
        next
          case NoHeader
          have eq: "make_request_from E req attempt s = make_request_from E req (attempt + 1)
                  (sleep RateLimited (real_of_int retry_delay) (sent E req s))"
            using lt Resp True NoHeader by (simp add: mr_429)
          show ?thesis unfolding eq
            by (rule more) (rule IH(1)[OF refl Resp True NoHeader])
        next
          case (Seconds n)
          show ?thesis
          proof (cases "n < 0")
            case neg: True
            have "make_request_from E req attempt s = (Inl ValueError, sent E req s)"
              using lt Resp True Seconds neg by (simp add: mr_429)
            then show ?thesis using one by simp
          next
            case nn: False
            have eq: "make_request_from E req attempt s = make_request_from E req (attempt + 1)
                  (sleep RateLimited (real_of_int n) (sent E req s))"
              using lt Resp True Seconds nn by (simp add: mr_429)
            show ?thesis unfolding eq
              by (rule more) (rule IH(2)[OF refl Resp True Seconds nn])
          qed
        qed
      qed
    qed
  qed
qed

lemma sends_refl: "sends_first_pages s s"
  unfolding sends_first_pages_def by (rule exI[of _ "[]"]) simp

lemma sends_trans:
  "sends_first_pages s s1 \<Longrightarrow> sends_first_pages s1 s2 \<Longrightarrow> sends_first_pages s s2"
  unfolding sends_first_pages_def
proof -
  assume "\<exists>new. sent_requests (trace s1) = new @ sent_requests (trace s)
            \<and> list_all first_page_request new"
     and "\<exists>new. sent_requests (trace s2) = new @ sent_requests (trace s1)
            \<and> list_all first_page_request new"
  then obtain a b where "sent_requests (trace s1) = a @ sent_requests (trace s)"
    "list_all first_page_request a" "sent_requests (trace s2) = b @ sent_requests (trace s1)"
    "list_all first_page_request b" by blast
  then have "sent_requests (trace s2) = (b @ a) @ sent_requests (trace s)
     \<and> list_all first_page_request (b @ a)" by simp
  then show "\<exists>new. sent_requests (trace s2) = new @ sent_requests (trace s)
            \<and> list_all first_page_request new" by blast
qed

lemma sends_same:
  "sent_requests (trace s') = sent_requests (trace s) \<Longrightarrow> sends_first_pages s s'"
  unfolding sends_first_pages_def by (rule exI[of _ "[]"]) simp

lemma sends_make_request:
  assumes "first_page_request req"
  shows "sends_first_pages s (snd (make_request E req s))"
proof -
  obtain n where "sent_requests (trace (snd (make_request_from E req 0 s)))
         = replicate n req @ sent_requests (trace s)"
    using sent_requests_make_request_from[of E req 0 s] by blast
  moreover have "list_all first_page_request (replicate n req)"
    using assms by (simp add: list_all_iff)
  ultimately show ?thesis unfolding sends_first_pages_def make_request_def by blast
qed

lemma sends_telegram: "sends_first_pages s (send_telegram_message E n s)"
  unfolding send_telegram_message_def
  by (rule sends_make_request) (simp add: first_page_request_def)

lemma sends_telegram_after:
  "sends_first_pages s s1 \<Longrightarrow> sends_first_pages s (send_telegram_message E n s1)"
  by (rule sends_trans[OF _ sends_telegram])

lemma trace_save_token: "trace (save_token_to_config a b x s) = trace s"
  by (simp add: save_token_to_config_def split: option.splits)

lemma sends_refresh: "sends_first_pages s (snd (refresh_access_token E s))"
proof -
  let ?s = "s\<lparr>trace := RefreshCalled # trace s\<rparr>"
  obtain res s1 where eq: "make_request E (PostTokenRefresh (hh_refresh_token s)) ?s = (res, s1)"
    by (cases "make_request E (PostTokenRefresh (hh_refresh_token s)) ?s")
  have s0: "sends_first_pages s ?s" by (rule sends_same) simp
  have "sends_first_pages ?s s1"
    using sends_make_request[of "PostTokenRefresh (hh_refresh_token s)" ?s E] eq
    by (simp add: first_page_request_def)
  then have m: "sends_first_pages s s1" by (rule sends_trans[OF s0])
  have upd: "sends_first_pages s (send_telegram_message E n s4)"
    if "trace s4 = trace s1" for n s4
  proof -
    have "sends_first_pages s1 s4" using that by (simp add: sends_same)
    then have "sends_first_pages s s4" by (rule sends_trans[OF m])
    then show ?thesis by (rule sends_telegram_after)
  qed
  show ?thesis
  proof (cases "hh_refresh_token s = []")
    case True
    then show ?thesis using s0 by (simp add: refresh_access_token_def Let_def)
  next
    case False
    show ?thesis
    proof (cases res)
      case (Inl e)
      then show ?thesis using False eq m
        by (simp add: refresh_access_token_def Let_def sends_telegram_after)
    next
      case (Inr ro)
      show ?thesis
      proof (cases ro)
        case None
        then show ?thesis using False eq m Inr
          by (simp add: refresh_access_token_def Let_def)
      next
        case (Some r)
        show ?thesis
        proof (cases "body r")
          case (TokenData a b c)
          then show ?thesis using False eq m Inr Some
            by (simp add: refresh_access_token_def Let_def sends_telegram_after upd
                trace_save_token split: option.splits)
        qed (use False eq m Inr Some in
              \<open>simp_all add: refresh_access_token_def Let_def sends_telegram_after\<close>)
      qed
    qed
  qed
qed

lemma sends_get_auth_headers: "sends_first_pages s (snd (get_auth_headers E s))"
proof (cases "refresh_access_token E s")
  case (Pair ok s1)
  then have "sends_first_pages s s1" using sends_refresh[of s E] by simp
  then show ?thesis using Pair
    by (simp add: get_auth_headers_def sends_refl split: bool.splits)
qed

lemma sends_fetch_negotiations:
  "sends_first_pages s (snd (fetch_negotiations E vs acc s))"
proof (induction vs arbitrary: acc s)
  case Nil
  then show ?case by (simp add: sends_refl)
next
  case (Cons v vs)
  show ?case
  proof (cases "vacancy_id v")
    case None
    then show ?thesis using Cons.IH by simp
  next
    case (Some vid)
    obtain res s1 where m: "make_request E (GetNegotiations vid 100 0) s = (res, s1)"
      by (cases "make_request E (GetNegotiations vid 100 0) s")
    have v: "sends_first_pages s s1"
      using sends_make_request[of "GetNegotiations vid 100 0" s E] m
      by (simp add: first_page_request_def)
    have "sends_first_pages s (snd (fetch_negotiations E vs acc' s1))" for acc'
      by (rule sends_trans[OF v Cons.IH])
    then show ?thesis using Some m Cons.IH
      by (simp split: sum.splits option.splits)
  qed
qed

lemma sends_get_hh_applications:
  "sends_first_pages s (snd (get_hh_applications E s))"
proof -
  obtain h s1 where g: "get_auth_headers E s = (h, s1)" by (cases "get_auth_headers E s")
  have v1: "sends_first_pages s s1" using sends_get_auth_headers[of s E] g by simp
  obtain res s2 where m: "make_request E GetMe s1 = (res, s2)"
    by (cases "make_request E GetMe s1")
  have "sends_first_pages s1 s2"
    using sends_make_request[of GetMe s1 E] m by (simp add: first_page_request_def)
  then have v2: "sends_first_pages s s2" by (rule sends_trans[OF v1])
  note tele = sends_telegram_after
  show ?thesis
  proof (cases "truthy (hh_access_token s)")
    case False
    then show ?thesis by (simp add: get_hh_applications_def sends_telegram)
  next
    case True
    show ?thesis
    proof (cases h)
      case (Inl e)
      then show ?thesis using True g v1 by (simp add: get_hh_applications_def tele)
    next
      case (Inr hd)
      show ?thesis
      proof (cases "\<exists>me eid. res = Inr (Some me) \<and> status_code me = 200
                \<and> employer_id_of (body me) = Some (Some eid) \<and> eid \<noteq> []")
        case False
        then show ?thesis using True g Inr m v2
          by (auto simp: get_hh_applications_def tele split: sum.splits option.splits if_splits)
      next
        case ex: True
        then obtain me eid where me: "res = Inr (Some me)" "status_code me = 200"
          "employer_id_of (body me) = Some (Some eid)" "eid \<noteq> []" by blast
        obtain res3 s3 where m3: "make_request E (GetVacancies eid 100 0) s2 = (res3, s3)"
          by (cases "make_request E (GetVacancies eid 100 0) s2")
        have "sends_first_pages s2 s3"
          using sends_make_request[of "GetVacancies eid 100 0" s2 E] m3
          by (simp add: first_page_request_def)
        then have v3: "sends_first_pages s s3" by (rule sends_trans[OF v2])
        show ?thesis
        proof (cases "\<exists>vr vs. res3 = Inr (Some vr) \<and> status_code vr = 200
                \<and> vacancy_items (body vr) = Some vs \<and> vs \<noteq> []")
          case False
          then show ?thesis using True g Inr m me m3 v3
            by (auto simp: get_hh_applications_def tele split: sum.splits option.splits if_splits)
        next
          case True2: True
          then obtain vr vs where vr: "res3 = Inr (Some vr)" "status_code vr = 200"
            "vacancy_items (body vr) = Some vs" "vs \<noteq> []" by blast
          have "snd (get_hh_applications E s) = snd (fetch_negotiations E vs [] s3)"
            using True g Inr m me m3 vr by (simp add: get_hh_applications_def)
          then show ?thesis using sends_trans[OF v3 sends_fetch_negotiations[of s3 E vs "[]"]]
            by simp
        qed
      qed
    qed
  qed
qed

lemma requests_fetch_negotiations_hh:
  "sent_requests (trace (snd (fetch_negotiations (hh_upstream vs negs) ws acc s)))
     = rev (negotiation_requests ws) @ sent_requests (trace s)"
proof (induction ws arbitrary: acc s)
  case Nil
  then show ?case by (simp add: negotiation_requests_def)
next
  case (Cons w ws)
  have c: "negotiation_requests (w # ws)
        = (case vacancy_id w of None \<Rightarrow> []
           | Some vid \<Rightarrow> if vid = [] then [] else [GetNegotiations vid 100 0])
          @ negotiation_requests ws"
    by (simp add: negotiation_requests_def)
  show ?case
  proof (cases "vacancy_id w")
    case None
    then show ?thesis using Cons.IH by (simp add: c)
  next
    case (Some vid)
    show ?thesis
    proof (cases "vid = []")
      case True
      then show ?thesis using Some Cons.IH by (simp add: c)
    next
      case False
      have b: "body (hh_answer vs negs (GetNegotiations vid 100 0))
                 = NegotiationItems (take 100 (negs vid))"
        by (simp add: hh_answer_def reply_def page_of_def)
      show ?thesis using Some False
        by (simp add: make_request_hh status_hh_answer b negotiation_items_def
            Cons.IH c sent_requests_sent)
    qed
  qed
qed

lemma requests_get_hh_applications_hh:
  assumes tok: "truthy (hh_access_token s)"
      and fresh: "\<not> is_token_expired s"
  shows "sent_requests (trace (snd (get_hh_applications (hh_upstream vs negs) s)))
           = rev (GetMe # GetVacancies ''employer'' 100 0 # negotiation_requests (take 100 vs))
             @ sent_requests (trace s)"
proof -
  let ?E = "hh_upstream vs negs"
  have h: "get_auth_headers ?E s = (Inr (hh_access_token s), s)"
    using fresh by (simp add: get_auth_headers_def)
  have me: "body (hh_answer vs negs GetMe) = MeData (Some ''employer'') True"
    by (simp add: hh_answer_def reply_def)
  have vb: "body (hh_answer vs negs (GetVacancies ''employer'' 100 0))
              = VacancyItems (take 100 vs)"
    by (simp add: hh_answer_def reply_def page_of_def)
  show ?thesis
    using tok
    by (simp add: get_hh_applications_def h make_request_hh status_hh_answer me vb
        employer_id_of_def vacancy_items_def requests_fetch_negotiations_hh sent_requests_sent
        negotiation_requests_def)
qed

text \<open>
  C2, as the code has it. In every environment, each request \<open>get_hh_applications\<close>
  sends for postings or for negotiations asks for page 0 with \<open>per_page = 100\<close>: no later
  page is ever requested. Against an upstream that serves its pages, with a token that is
  not about to expire, the requests are exactly \<open>/me\<close>, page 0 of the postings, and
  page 0 of the negotiations of each posting of that page, in this order, and what is
  returned comes from the first 100 postings and the first 100 negotiations of each.
\<close>

theorem get_hh_applications_first_pages:
  "(\<exists>new. sent_requests (trace (snd (get_hh_applications E s))) = new @ sent_requests (trace s)
          \<and> list_all first_page_request new)
   \<and> (truthy (hh_access_token s) \<and> \<not> is_token_expired s \<longrightarrow>
        fst (get_hh_applications (hh_upstream vs negs) s)
          = concat (map (page_one_of negs (processed_ids s)) (take 100 vs))
        \<and> sent_requests (trace (snd (get_hh_applications (hh_upstream vs negs) s)))
          = rev (GetMe # GetVacancies ''employer'' 100 0 # negotiation_requests (take 100 vs))
            @ sent_requests (trace s))"
  using sends_get_hh_applications[of s E] get_hh_applications_hh[of s vs negs]
    requests_get_hh_applications_hh[of s vs negs]
  by (simp add: sends_first_pages_def)

theorem get_hh_applications_first_pages_witness:
  "fst (get_hh_applications
          (hh_upstream one_posting (\<lambda>vid. [numbered 0, numbered 1])) state0)
     = [\<lparr>app_negotiation = numbered 0, app_vacancy_name = ''job''\<rparr>,
        \<lparr>app_negotiation = numbered 1, app_vacancy_name = ''job''\<rparr>]
   \<and> sent_requests (trace (snd (get_hh_applications
          (hh_upstream one_posting (\<lambda>vid. [numbered 0, numbered 1])) state0)))
     = [GetNegotiations ''v1'' 100 0, GetVacancies ''employer'' 100 0, GetMe]"
proof -
  have tok: "truthy (hh_access_token state0)" by (simp add: state0_def truthy_def)
  have fresh: "\<not> is_token_expired state0" by (simp add: state0_def is_token_expired_def)
  have p: "processed_ids state0 = {}" "sent_requests (trace state0) = []"
    by (simp_all add: state0_def)
  have n: "negotiation_requests (take 100 one_posting) = [GetNegotiations ''v1'' 100 0]"
    by (simp add: negotiation_requests_def one_posting_def)
  have a: "concat (map (page_one_of (\<lambda>vid. [numbered 0, numbered 1]) {}) (take 100 one_posting))
     = [\<lparr>app_negotiation = numbered 0, app_vacancy_name = ''job''\<rparr>,
        \<lparr>app_negotiation = numbered 1, app_vacancy_name = ''job''\<rparr>]"
    by (simp add: one_posting_def page_one_of_def new_applications_def numbered_def)
  have "fst (get_hh_applications
          (hh_upstream one_posting (\<lambda>vid. [numbered 0, numbered 1])) state0)
     = concat (map (page_one_of (\<lambda>vid. [numbered 0, numbered 1]) (processed_ids state0))
         (take 100 one_posting))
   \<and> sent_requests (trace (snd (get_hh_applications
          (hh_upstream one_posting (\<lambda>vid. [numbered 0, numbered 1])) state0)))
     = rev (GetMe # GetVacancies ''employer'' 100 0 # negotiation_requests (take 100 one_posting))
       @ sent_requests (trace state0)"
    using get_hh_applications_first_pages[of "hh_upstream one_posting (\<lambda>vid. [numbered 0, numbered 1])" state0
        one_posting "\<lambda>vid. [numbered 0, numbered 1]"] tok fresh
    by blast
  then show ?thesis unfolding p n a by simp
qed

text \<open>
  C2 as stated fails: of 101 negotiations of one posting, none in the ledger, the last
  one is not enumerated.
\<close>

theorem negotiation_on_second_page_missed:
  "numbered 100 \<in> set (map numbered [0..<101])
   \<and> neg_id (numbered 100) \<notin> processed_ids state0
   \<and> numbered 100 \<notin> set (map app_negotiation
         (fst (get_hh_applications
                 (hh_upstream one_posting (\<lambda>vid. map numbered [0..<101])) state0)))"
proof -
  have a: "numbered 100 \<in> set (map numbered [0..<101])" by simp
  have b: "neg_id (numbered 100) \<notin> processed_ids state0" by (simp add: state0_def)
  have "set (map app_negotiation (new_applications {} ''job'' (map numbered [0..<100])))
          \<subseteq> numbered ` {0..<100}"
    by (auto simp: new_applications_def)
  then have c: "numbered 100 \<notin> set (map app_negotiation
         (new_applications {} ''job'' (map numbered [0..<100])))"
    by (auto simp: numbered_eq)
  show ?thesis using a b c unfolding first_page_numbered by blast
qed

section \<open>The ledger across a cycle\<close>














section \<open>Compaction of the ledger\<close>

lemma universal_newlines_id: "13 \<notin> set c \<Longrightarrow> universal_newlines c = c"
  by (induction c rule: universal_newlines.induct) auto

lemma universal_newlines_no_cr: "13 \<notin> set (universal_newlines c)"
  by (induction c rule: universal_newlines.induct) auto

lemma split_keepends_single:
  "c \<noteq> [] \<Longrightarrow> 10 \<notin> set c \<Longrightarrow> split_keepends c = [c]"
proof (induction c)
  case Nil
  then show ?case by simp
next
  case (Cons a c)
  then show ?case by (cases c) auto
qed

lemma concat_split_keepends: "concat (split_keepends c) = c"
  by (induction c) (auto split: list.splits)

lemma keep_last_drop: "keep_last ls = drop (length ls - max_ledger_lines) ls"
  by (simp add: keep_last_def)

lemma length_keep_last: "length (keep_last ls) = min max_ledger_lines (length ls)"
  by (auto simp: keep_last_def)

lemma line_list_split_keepends: "line_list (split_keepends c)"
proof (induction c)
  case Nil
  then show ?case by simp
next
  case (Cons a c)
  show ?case
  proof (cases "a = 10")
    case True
    then show ?thesis using Cons by (cases "split_keepends c") auto
  next
    case False
    show ?thesis
    proof (cases "split_keepends c")
      case Nil
      then show ?thesis using False by simp
    next
      case (Cons l ls)
      then have ll: "line_list (l # ls)" using Cons.IH by simp
      then have "l \<noteq> []" by (cases ls) auto
      then show ?thesis using False Cons ll by (cases ls) auto
    qed
  qed
qed

lemma line_list_drop: "line_list ls \<Longrightarrow> line_list (drop k ls)"
proof (induction ls arbitrary: k rule: line_list.induct)
  case 1
  then show ?case by simp
next
  case (2 l)
  then show ?case by (cases k) auto
next
  case (3 l m ls)
  then show ?case by (cases k) auto
qed

lemma split_keepends_line:
  "l \<noteq> [] \<Longrightarrow> 10 \<notin> set (butlast l) \<Longrightarrow> last l = 10 \<Longrightarrow>
   split_keepends (l @ r) = l # split_keepends r"
proof (induction l)
  case Nil
  then show ?case by simp
next
  case (Cons a l)
  show ?case
  proof (cases "l = []")
    case True
    then show ?thesis using Cons.prems by simp
  next
    case False
    then have "a \<noteq> 10" "10 \<notin> set (butlast l)" "last l = 10"
      using Cons.prems by auto
    then show ?thesis using Cons.IH False by simp
  qed
qed

lemma split_keepends_concat: "line_list ls \<Longrightarrow> split_keepends (concat ls) = ls"
proof (induction ls rule: line_list.induct)
  case 1
  then show ?case by simp
next
  case (2 l)
  show ?case
  proof (cases "last l = 10")
    case True
    then show ?thesis using 2 split_keepends_line[of l "[]"] by simp
  next
    case False
    then have "10 \<notin> set l" using 2
      by (metis append_butlast_last_id line_list.simps(2) rotate1.simps(2) set_ConsD set_rotate1)
    then show ?thesis using 2 by (simp add: split_keepends_single)
  qed
next
  case (3 l k ls)
  then show ?case using split_keepends_line[of l "concat (k # ls)"] by simp
qed

lemma no_cr_concat_drop:
  "13 \<notin> set (concat ls) \<Longrightarrow> 13 \<notin> set (concat (drop k ls))"
  by (auto dest: in_set_dropD)

lemma readlines_kept:
  "readlines (concat (keep_last (readlines c))) = keep_last (readlines c)"
proof -
  let ?ls = "readlines c"
  have "concat ?ls = universal_newlines c"
    by (simp add: readlines_def concat_split_keepends)
  then have "13 \<notin> set (concat ?ls)" by (simp add: universal_newlines_no_cr)
  then have "13 \<notin> set (concat (keep_last ?ls))"
    unfolding keep_last_drop by (rule no_cr_concat_drop)
  then have u: "universal_newlines (concat (keep_last ?ls)) = concat (keep_last ?ls)"
    by (rule universal_newlines_id)
  have "line_list (keep_last ?ls)"
    unfolding keep_last_drop readlines_def
    by (rule line_list_drop[OF line_list_split_keepends])
  then show ?thesis
    unfolding readlines_def[of "concat (keep_last (readlines c))"] u
    by (rule split_keepends_concat)
qed

lemma dropWhile_id: "l \<noteq> [] \<Longrightarrow> \<not> P (hd l) \<Longrightarrow> dropWhile P l = l"
  by (cases l) simp_all

lemma strip_id:
  assumes "l \<noteq> []" "\<not> is_space (hd l)" "\<not> is_space (last l)"
  shows "strip l = l"
proof -
  have "dropWhile is_space l = l" using assms by (simp add: dropWhile_id)
  moreover have "dropWhile is_space (rev l) = rev l"
    using assms by (intro dropWhile_id) (simp_all add: hd_rev)
  ultimately show ?thesis by (simp add: strip_def)
qed

lemma write_lines_all:
  "map (encode E) ls = map Some bs \<Longrightarrow> write_lines E ls = (concat bs, True)"
proof (induction ls arbitrary: bs)
  case Nil
  then show ?case by simp
next
  case (Cons l ls)
  then obtain b bs' where bs: "bs = b # bs'" by (cases bs) auto
  then have "encode E l = Some b" "map (encode E) ls = map Some bs'" using Cons.prems by auto
  then show ?case using Cons.IH[of bs'] bs by simp
qed

lemma write_backup_cases:
  "write_backup E raw s =
     (case backups s (today s) of
        Some b \<Rightarrow> Inr s
      | None \<Rightarrow>
          (case decode E raw of
             None \<Rightarrow> Inl (s\<lparr>backups := (backups s)(today s \<mapsto> [])\<rparr>)
           | Some content \<Rightarrow>
               (case encode E (universal_newlines content) of
                  None \<Rightarrow> Inl (s\<lparr>backups := (backups s)(today s \<mapsto> [])\<rparr>)
                | Some copy \<Rightarrow> Inr (s\<lparr>backups := (backups s)(today s \<mapsto> copy)\<rparr>))))"
  by (simp add: write_backup_def)

lemma same_backups: "backups s d = Some b \<Longrightarrow> s\<lparr>backups := (backups s)(d \<mapsto> b)\<rparr> = s"
  by (simp add: fun_upd_idem)

lemma cleanup_light:
  assumes "ledger_file s = Some raw" "length raw \<le> max_ledger_bytes"
  shows "cleanup_old_processed_ids E s
           = s\<lparr>backups := (backups s)(today s \<mapsto> backup_of E raw s)\<rparr>"
  using assms
  by (simp add: cleanup_old_processed_ids_def write_backup_def backup_of_def Let_def
      same_backups split: option.splits)

lemma cleanup_undecodable:
  assumes "ledger_file s = Some raw" "decode E raw = None"
  shows "cleanup_old_processed_ids E s
           = s\<lparr>backups := (backups s)(today s \<mapsto> backup_of E raw s)\<rparr>"
  using assms
  by (simp add: cleanup_old_processed_ids_def write_backup_def backup_of_def Let_def
      same_backups split: option.splits)

lemma cleanup_heavy:
  assumes led: "ledger_file s = Some raw"
      and heavy: "length raw > max_ledger_bytes"
      and dec: "decode E raw = Some content"
      and enc: "map (encode E) (readlines content) = map Some encoded"
      and bak: "backups s (today s) = None \<longrightarrow> encode E (universal_newlines content) = Some copy"
  shows "cleanup_old_processed_ids E s
           = s\<lparr>backups := (backups s)(today s \<mapsto> backup_of E raw s),
               ledger_file := Some (concat (drop (length encoded - max_ledger_lines) encoded)),
               processed_ids := ids_of_lines (keep_last (readlines content))\<rparr>"
proof -
  have len: "length encoded = length (readlines content)"
    using arg_cong[OF enc, of length] by simp
  have "map (encode E) (keep_last (readlines content))
          = map Some (drop (length encoded - max_ledger_lines) encoded)"
    unfolding keep_last_drop len using arg_cong[OF enc, of "drop (length (readlines content) - max_ledger_lines)"]
    by (simp add: drop_map)
  then have w: "write_lines E (keep_last (readlines content))
          = (concat (drop (length encoded - max_ledger_lines) encoded), True)"
    by (rule write_lines_all)
  show ?thesis
  proof (cases "backups s (today s)")
    case None
    then show ?thesis using led heavy dec bak w
      by (simp add: cleanup_old_processed_ids_def write_backup_def backup_of_def Let_def)
  next
    case (Some b)
    then show ?thesis using led heavy dec w
      by (simp add: cleanup_old_processed_ids_def write_backup_def backup_of_def Let_def
          same_backups)
  qed
qed

lemma ascii_encode_low:
  "list_all (\<lambda>n. n < 128) t \<Longrightarrow> ascii_encode t = Some (map char_of t)"
  by (simp add: ascii_encode_def)

lemma ascii_decode_low:
  assumes "list_all (\<lambda>n. n < 128) t"
  shows "ascii_decode (map char_of t) = Some t"
proof -
  have m: "map (of_char \<circ> (char_of :: nat \<Rightarrow> char)) t = t"
    using assms by (induction t) simp_all
  have "list_all (\<lambda>c. of_char c < (128 :: nat)) (map char_of t)"
    using assms by (induction t) simp_all
  then show ?thesis using m by (simp add: ascii_decode_def)
qed

lemma codec_scripted: "decode (scripted outs) = ascii_decode" "encode (scripted outs) = ascii_encode"
  by (simp_all add: scripted_def)

lemma ledger_line_shape:
  "ledger_line k \<noteq> []" "10 \<notin> set (butlast (ledger_line k))" "last (ledger_line k) = 10"
  "13 \<notin> set (ledger_line k)" "list_all (\<lambda>n. n < 128) (ledger_line k)"
  "length (ledger_line k) = k + 2"
  by (simp_all add: ledger_line_def numbered_def list_all_iff)

lemma line_list_all:
  "(\<And>l. l \<in> set ls \<Longrightarrow> l \<noteq> [] \<and> 10 \<notin> set (butlast l) \<and> last l = 10) \<Longrightarrow> line_list ls"
  by (induction ls rule: line_list.induct) simp_all

lemma line_list_ledger_lines: "line_list (map ledger_line ks)"
  by (rule line_list_all) (auto simp: ledger_line_shape)

lemma low_ledger_lines: "list_all (\<lambda>n. n < 128) (concat (map ledger_line ks))"
  using ledger_line_shape(5) by (auto simp: list_all_iff)

lemma no_cr_ledger_lines: "13 \<notin> set (concat (map ledger_line ks))"
  using ledger_line_shape(4) by auto

lemma readlines_ledger_lines: "readlines (concat (map ledger_line ks)) = map ledger_line ks"
  by (simp add: readlines_def universal_newlines_id[OF no_cr_ledger_lines]
      split_keepends_concat[OF line_list_ledger_lines])

lemma length_ledger_lines: "2 * length (concat (map ledger_line [0..<n])) = n * (n + 3)"
  by (induction n) (simp_all add: ledger_line_shape(6) algebra_simps)

lemma length_crowded_text: "length crowded_text = 50025002"
proof -
  have "2 * length crowded_text = 10001 * (10001 + 3)"
    unfolding crowded_text_def by (rule length_ledger_lines)
  then show ?thesis by simp
qed

lemma strip_ledger_line: "strip (ledger_line k) = neg_id (numbered k)"
proof -
  have s: "\<not> is_space 55" "is_space 10" by (simp_all add: is_space_def)
  have a: "dropWhile is_space (replicate (Suc k) 55 @ [10]) = replicate (Suc k) 55 @ [10]"
    using s by simp
  have "rev (replicate (Suc k) 55 @ [10::nat]) = 10 # replicate (Suc k) 55"
    by (simp add: replicate_append_same)
  then have b: "dropWhile is_space (rev (replicate (Suc k) 55 @ [10])) = replicate (Suc k) 55"
    using s by simp
  show ?thesis unfolding strip_def ledger_line_def numbered_def
    by (simp only: negotiation.simps a b rev_replicate)
qed

lemma ids_of_ledger_lines:
  "ids_of_lines (map ledger_line ks) = (\<lambda>k. neg_id (numbered k)) ` set ks"
  by (auto simp: ids_of_lines_def strip_ledger_line numbered_def)

lemma neg_id_numbered_eq: "neg_id (numbered k) = neg_id (numbered j) \<longleftrightarrow> k = j"
proof
  assume "neg_id (numbered k) = neg_id (numbered j)"
  then have "length (neg_id (numbered k)) = length (neg_id (numbered j))" by simp
  then show "k = j" by (simp add: numbered_def)
qed simp

lemma encode_ledger_lines:
  "map ascii_encode (map ledger_line ks) = map Some (map (map char_of \<circ> ledger_line) ks)"
  by (simp add: ascii_encode_low ledger_line_shape(5))

lemma concat_encoded:
  "concat (map (map char_of \<circ> ledger_line) ks) = map char_of (concat (map ledger_line ks))"
  by (simp add: map_concat)

lemma crowded_heavy:
  "length (map char_of crowded_text :: bytes) = 50025002"
  "length (map char_of crowded_text :: bytes) > max_ledger_bytes"
  by (simp_all add: length_crowded_text max_ledger_bytes_def)

lemma crowded_decode:
  "decode (scripted []) (map char_of crowded_text) = Some crowded_text"
  unfolding codec_scripted crowded_text_def by (rule ascii_decode_low[OF low_ledger_lines])

lemma crowded_lines: "readlines crowded_text = map ledger_line [0..<10001]"
  unfolding crowded_text_def by (rule readlines_ledger_lines)

lemma crowded_encode:
  "map (encode (scripted [])) (readlines crowded_text)
     = map Some (map (map char_of \<circ> ledger_line) [0..<10001])"
  unfolding codec_scripted crowded_lines by (rule encode_ledger_lines)

lemma crowded_kept: "keep_last (readlines crowded_text) = map ledger_line [1..<10001]"
  unfolding crowded_lines keep_last_drop
  by (simp add: max_ledger_lines_def drop_map del: upt_rec_numeral)

lemma crowded_written:
  "concat (drop (length (map (map char_of \<circ> ledger_line) [0..<10001] :: bytes list)
                   - max_ledger_lines)
             (map (map char_of \<circ> ledger_line) [0..<10001]))
     = (map char_of (concat (map ledger_line [1..<10001])) :: bytes)"
proof -
  have "drop (length (map (map char_of \<circ> ledger_line) [0..<10001] :: bytes list)
                - max_ledger_lines)
          (map (map char_of \<circ> ledger_line) [0..<10001])
        = (map (map char_of \<circ> ledger_line) [1..<10001] :: bytes list)"
    by (simp add: max_ledger_lines_def drop_map del: upt_rec_numeral map_map)
  then show ?thesis by (simp only: concat_encoded)
qed

lemma crowded_ids:
  "ids_of_lines (keep_last (readlines crowded_text)) = (\<lambda>k. neg_id (numbered k)) ` {1..<10001}"
  unfolding crowded_kept ids_of_ledger_lines by simp

lemma crowded_members:
  "neg_id (numbered 0) \<notin> (\<lambda>k. neg_id (numbered k)) ` {1..<10001}"
  "neg_id (numbered 1) \<in> (\<lambda>k. neg_id (numbered k)) ` {1..<10001}"
  "neg_id (numbered 10000) \<in> (\<lambda>k. neg_id (numbered k)) ` {1..<10001}"
  by (auto simp: neg_id_numbered_eq)

lemma cleanup_crowded:
  assumes led: "ledger_file s = Some (map char_of crowded_text)"
      and bak: "backups s (today s) = Some b"
  shows "cleanup_old_processed_ids (scripted []) s
           = s\<lparr>ledger_file := Some (map char_of (concat (map ledger_line [1..<10001]))),
               processed_ids := (\<lambda>k. neg_id (numbered k)) ` {1..<10001}\<rparr>"
proof -
  have bo: "backup_of (scripted []) (map char_of crowded_text) s = b"
    using bak by (simp add: backup_of_def)
  have nb: "backups s (today s) = None
              \<longrightarrow> encode (scripted []) (universal_newlines crowded_text) = Some []"
    using bak by simp
  show ?thesis
    unfolding cleanup_heavy[OF led crowded_heavy(2) crowded_decode crowded_encode nb]
      crowded_written crowded_ids bo
    using bak by (simp add: same_backups)
qed

text \<open>
  C9, as the code has it. A ledger file larger than 10 MB that does not decode is left as it
  is, and so is the set. One that decodes, and whose lines can be written back, is
  rewritten with its last 10000 lines, all of them when there are no more; the set in
  memory becomes the ids of the kept lines, so an id is a member exactly when it stands,
  stripped, on a kept line, which is also what a reload of the rewritten file gives. The
  backup carries the day in its name: one that exists is left as it is, otherwise the text
  of the file before the rewrite is written to it.
\<close>

theorem cleanup_keeps_last_lines:
  assumes led: "ledger_file s = Some raw"
      and heavy: "length raw > max_ledger_bytes"
  shows "(decode E raw = None \<longrightarrow>
            ledger_file (cleanup_old_processed_ids E s) = Some raw
            \<and> processed_ids (cleanup_old_processed_ids E s) = processed_ids s)
       \<and> (decode E raw = Some content
            \<and> map (encode E) (readlines content) = map Some encoded
            \<and> (backups s (today s) = None
                 \<longrightarrow> encode E (universal_newlines content) = Some copy) \<longrightarrow>
            ledger_file (cleanup_old_processed_ids E s)
              = Some (concat (drop (length encoded - max_ledger_lines) encoded))
            \<and> keep_last (readlines content)
              = drop (length (readlines content) - max_ledger_lines) (readlines content)
            \<and> length (keep_last (readlines content))
              = min max_ledger_lines (length (readlines content))
            \<and> processed_ids (cleanup_old_processed_ids E s)
              = ids_of_lines (keep_last (readlines content))
            \<and> (\<forall>x. x \<in> processed_ids (cleanup_old_processed_ids E s)
                  \<longleftrightarrow> x \<noteq> [] \<and> (\<exists>l \<in> set (keep_last (readlines content)). strip l = x))
            \<and> backups (cleanup_old_processed_ids E s) (today s)
              = Some (case backups s (today s) of None \<Rightarrow> copy | Some b \<Rightarrow> b)
            \<and> (\<forall>d. d \<noteq> today s \<longrightarrow> backups (cleanup_old_processed_ids E s) d = backups s d)
            \<and> (decode E (concat (drop (length encoded - max_ledger_lines) encoded))
                  = Some (concat (keep_last (readlines content)))
                \<longrightarrow> load_processed_ids E (cleanup_old_processed_ids E s)
                      = processed_ids (cleanup_old_processed_ids E s)))"
proof (intro conjI impI)
  assume "decode E raw = None"
  then show "ledger_file (cleanup_old_processed_ids E s) = Some raw"
    and "processed_ids (cleanup_old_processed_ids E s) = processed_ids s"
    using led by (simp_all add: cleanup_undecodable)
next
  assume a: "decode E raw = Some content
            \<and> map (encode E) (readlines content) = map Some encoded
            \<and> (backups s (today s) = None
                 \<longrightarrow> encode E (universal_newlines content) = Some copy)"
  then have dec: "decode E raw = Some content"
    and enc: "map (encode E) (readlines content) = map Some encoded"
    and bak: "backups s (today s) = None \<longrightarrow> encode E (universal_newlines content) = Some copy"
    by simp_all
  note c = cleanup_heavy[OF led heavy dec enc bak]
  have b: "backup_of E raw s = (case backups s (today s) of None \<Rightarrow> copy | Some b \<Rightarrow> b)"
    using dec bak by (simp add: backup_of_def split: option.splits)
  show "ledger_file (cleanup_old_processed_ids E s)
              = Some (concat (drop (length encoded - max_ledger_lines) encoded))"
    by (simp add: c)
  show "keep_last (readlines content)
              = drop (length (readlines content) - max_ledger_lines) (readlines content)"
    by (rule keep_last_drop)
  show "length (keep_last (readlines content))
              = min max_ledger_lines (length (readlines content))"
    by (rule length_keep_last)
  show p: "processed_ids (cleanup_old_processed_ids E s)
              = ids_of_lines (keep_last (readlines content))"
    by (simp add: c)
  show "\<forall>x. x \<in> processed_ids (cleanup_old_processed_ids E s)
                  \<longleftrightarrow> x \<noteq> [] \<and> (\<exists>l \<in> set (keep_last (readlines content)). strip l = x)"
    unfolding p by (auto simp: ids_of_lines_def)
  show "backups (cleanup_old_processed_ids E s) (today s)
              = Some (case backups s (today s) of None \<Rightarrow> copy | Some b \<Rightarrow> b)"
    by (simp add: c b)
  show "\<forall>d. d \<noteq> today s \<longrightarrow> backups (cleanup_old_processed_ids E s) d = backups s d"
    by (simp add: c)
  assume "decode E (concat (drop (length encoded - max_ledger_lines) encoded))
                  = Some (concat (keep_last (readlines content)))"
  then show "load_processed_ids E (cleanup_old_processed_ids E s)
                      = processed_ids (cleanup_old_processed_ids E s)"
    by (simp add: c load_processed_ids_def readlines_kept)
qed

theorem cleanup_keeps_last_lines_witness:
  "length (map char_of crowded_text :: bytes) = 50025002
   \<and> ledger_file crowded_state = Some (map char_of crowded_text)
   \<and> length (readlines crowded_text) = 10001
   \<and> ledger_file (cleanup_old_processed_ids (scripted []) crowded_state)
       = Some (map char_of (concat (map ledger_line [1..<10001])))
   \<and> length (keep_last (readlines crowded_text)) = 10000
   \<and> neg_id (numbered 0) \<in> processed_ids crowded_state
   \<and> neg_id (numbered 0) \<notin> processed_ids (cleanup_old_processed_ids (scripted []) crowded_state)
   \<and> neg_id (numbered 1) \<in> processed_ids (cleanup_old_processed_ids (scripted []) crowded_state)
   \<and> neg_id (numbered 10000) \<in> processed_ids (cleanup_old_processed_ids (scripted []) crowded_state)
   \<and> load_processed_ids (scripted []) (cleanup_old_processed_ids (scripted []) crowded_state)
       = processed_ids (cleanup_old_processed_ids (scripted []) crowded_state)
   \<and> backups (cleanup_old_processed_ids (scripted []) crowded_state) (today crowded_state)
       = Some (map char_of crowded_text)"
proof -
  let ?E = "scripted []"
  let ?raw = "map char_of crowded_text :: bytes"
  let ?enc = "map (map char_of \<circ> ledger_line) [0..<10001] :: bytes list"
  have led: "ledger_file crowded_state = Some ?raw" by (simp add: crowded_state_def)
  have un: "universal_newlines crowded_text = crowded_text"
    unfolding crowded_text_def by (rule universal_newlines_id[OF no_cr_ledger_lines])
  have bak: "backups crowded_state (today crowded_state) = None"
    by (simp add: crowded_state_def state0_def)
  have cp: "encode ?E (universal_newlines crowded_text) = Some ?raw"
    unfolding un unfolding codec_scripted crowded_text_def
    by (rule ascii_encode_low[OF low_ledger_lines])
  have rd: "decode ?E (concat (drop (length ?enc - max_ledger_lines) ?enc))
          = Some (concat (keep_last (readlines crowded_text)))"
    unfolding crowded_written crowded_kept codec_scripted
    by (rule ascii_decode_low[OF low_ledger_lines])
  have before: "neg_id (numbered 0) \<in> processed_ids crowded_state"
    by (simp add: crowded_state_def)
  have all: "decode ?E ?raw = Some crowded_text
            \<and> map (encode ?E) (readlines crowded_text) = map Some ?enc
            \<and> (backups crowded_state (today crowded_state) = None
                 \<longrightarrow> encode ?E (universal_newlines crowded_text) = Some ?raw)"
    using crowded_decode crowded_encode cp by simp
  note t = cleanup_keeps_last_lines[OF led crowded_heavy(2), where E = ?E
      and content = crowded_text and encoded = ?enc and copy = ?raw,
      THEN conjunct2, rule_format, OF all]
  have f: "ledger_file (cleanup_old_processed_ids ?E crowded_state)
       = Some (map char_of (concat (map ledger_line [1..<10001])))"
    using t[THEN conjunct1] unfolding crowded_written .
  have k: "length (keep_last (readlines crowded_text)) = 10000"
    using t[THEN conjunct2, THEN conjunct2, THEN conjunct1]
    by (simp add: crowded_lines max_ledger_lines_def)
  have p: "processed_ids (cleanup_old_processed_ids ?E crowded_state)
       = (\<lambda>k. neg_id (numbered k)) ` {1..<10001}"
    using t[THEN conjunct2, THEN conjunct2, THEN conjunct2, THEN conjunct1]
    unfolding crowded_ids .
  have b: "backups (cleanup_old_processed_ids ?E crowded_state) (today crowded_state)
       = Some ?raw"
    using t[THEN conjunct2, THEN conjunct2, THEN conjunct2, THEN conjunct2, THEN conjunct2,
        THEN conjunct1] bak by simp
  have l: "load_processed_ids ?E (cleanup_old_processed_ids ?E crowded_state)
       = processed_ids (cleanup_old_processed_ids ?E crowded_state)"
    using t[THEN conjunct2, THEN conjunct2, THEN conjunct2, THEN conjunct2, THEN conjunct2,
        THEN conjunct2, THEN conjunct2] rd by simp
  have n: "length (readlines crowded_text) = 10001" by (simp add: crowded_lines)
  show ?thesis
    unfolding p using crowded_heavy(1) led n f k before crowded_members b l[unfolded p]
    by blast
qed

text \<open>
  C9 as stated fails when a backup of the day is in place: of 10001 entries the oldest is
  removed from the file and from the set, and the backup still holds what it held before,
  which is not the store as it was before the compaction.
\<close>

theorem cleanup_keeps_stale_backup:
  "ledger_file stale_state = Some (map char_of crowded_text)
   \<and> length (map char_of crowded_text :: bytes) > max_ledger_bytes
   \<and> backups stale_state (today stale_state) = Some ''41\<newline>''
   \<and> neg_id (numbered 0) \<in> processed_ids stale_state
   \<and> neg_id (numbered 0) \<notin> processed_ids (cleanup_old_processed_ids (scripted []) stale_state)
   \<and> ledger_file (cleanup_old_processed_ids (scripted []) stale_state)
       = Some (map char_of (concat (map ledger_line [1..<10001])))
   \<and> backups (cleanup_old_processed_ids (scripted []) stale_state) (today stale_state)
       = Some ''41\<newline>''
   \<and> (map char_of crowded_text :: bytes) \<noteq> ''41\<newline>''"
proof -
  have led: "ledger_file stale_state = Some (map char_of crowded_text)"
    by (simp add: stale_state_def crowded_state_def)
  have t: "today stale_state = today crowded_state" by (simp add: stale_state_def today_def)
  have bak: "backups stale_state (today stale_state) = Some ''41\<newline>''"
    unfolding t by (simp add: stale_state_def)
  have ne: "(map char_of crowded_text :: bytes) \<noteq> ''41\<newline>''"
  proof
    assume "(map char_of crowded_text :: bytes) = ''41\<newline>''"
    then have "length (map char_of crowded_text :: bytes) = length ''41\<newline>''"
      by (rule arg_cong)
    then show False unfolding crowded_heavy(1) by simp
  qed
  have before: "neg_id (numbered 0) \<in> processed_ids stale_state"
    by (simp add: stale_state_def crowded_state_def)
  show ?thesis
    using led crowded_heavy(2) bak before crowded_members(1) ne
    by (simp add: cleanup_crowded[OF led bak])
qed

text \<open>
  C10, as the code has it. When the ledger file is at most 10 MB,
  \<open>cleanup_old_processed_ids\<close> leaves the file and the set in memory as they were and
  changes nothing but the backup of the day. A backup that exists is kept. Otherwise the
  backup is created and holds the text of the file with its line ends normalised, written
  back through the codec, and nothing when the file does not decode or the text does not
  encode; it is a copy of the file when the file decodes to a text without \<open>\\r\<close> that
  encodes to the same bytes.
\<close>

theorem cleanup_small_file_unchanged:
  assumes led: "ledger_file s = Some raw"
      and light: "length raw \<le> max_ledger_bytes"
  shows "ledger_file (cleanup_old_processed_ids E s) = ledger_file s
       \<and> processed_ids (cleanup_old_processed_ids E s) = processed_ids s
       \<and> cleanup_old_processed_ids E s
           = s\<lparr>backups := (backups s)(today s \<mapsto>
                (case backups s (today s) of
                   Some b \<Rightarrow> b
                 | None \<Rightarrow>
                     (case decode E raw of
                        None \<Rightarrow> []
                      | Some content \<Rightarrow>
                          (case encode E (universal_newlines content) of
                             None \<Rightarrow> []
                           | Some copy \<Rightarrow> copy))))\<rparr>
       \<and> (backups s (today s) = None \<and> decode E raw = Some content \<and> 13 \<notin> set content
            \<and> encode E content = Some raw
          \<longrightarrow> backups (cleanup_old_processed_ids E s) (today s) = Some raw)"
  by (simp add: cleanup_light[OF led light] backup_of_def universal_newlines_id)

theorem cleanup_small_file_unchanged_witness:
  "ledger_file small_state = Some ''41\<newline>42\<newline>''
   \<and> ledger_file (cleanup_old_processed_ids (scripted []) small_state) = Some ''41\<newline>42\<newline>''
   \<and> processed_ids (cleanup_old_processed_ids (scripted []) small_state)
       = {as_text ''41'', as_text ''42''}
   \<and> backups (cleanup_old_processed_ids (scripted []) small_state) (today small_state)
       = Some ''41\<newline>42\<newline>''"
proof -
  have f: "ledger_file small_state = Some ''41\<newline>42\<newline>''" by (simp add: small_state_def)
  have l: "length ''41\<newline>42\<newline>'' \<le> max_ledger_bytes" by (simp add: max_ledger_bytes_def)
  have b: "backups small_state (today small_state) = None"
    by (simp add: small_state_def state0_def)
  have p: "processed_ids small_state = {as_text ''41'', as_text ''42''}"
    by (simp add: small_state_def)
  have d: "decode (scripted []) ''41\<newline>42\<newline>'' = Some (as_text ''41\<newline>42\<newline>'')"
    by (simp add: codec_scripted ascii_decode_def as_text_def)
  have e: "encode (scripted []) (as_text ''41\<newline>42\<newline>'') = Some ''41\<newline>42\<newline>''"
    by (simp add: codec_scripted ascii_encode_def as_text_def char_of_eq_iff)
  have c: "13 \<notin> set (as_text ''41\<newline>42\<newline>'')" by (simp add: as_text_def)
  note t = cleanup_small_file_unchanged[OF f l, where E = "scripted []" and content = "as_text ''41\<newline>42\<newline>''"]
  have "backups (cleanup_old_processed_ids (scripted []) small_state) (today small_state)
       = Some ''41\<newline>42\<newline>''"
    using t[THEN conjunct2, THEN conjunct2, THEN conjunct2] b d e c by blast
  then show ?thesis using t[THEN conjunct1] t[THEN conjunct2, THEN conjunct1] f p by simp
qed

text \<open>
  C10 as stated fails on the backup: of a small ledger with a \<open>\\r\\n\<close> line end the backup
  holds the line with \<open>\\n\<close>, and of a small ledger that does not decode the backup is
  empty.
\<close>

theorem cleanup_backup_not_a_copy:
  "ledger_file dos_state = Some [CHR ''4'', CHR ''1'', CHR 0x0D, CHR 0x0A]
   \<and> length [CHR ''4'', CHR ''1'', CHR 0x0D, CHR 0x0A] \<le> max_ledger_bytes
   \<and> backups dos_state (today dos_state) = None
   \<and> backups (cleanup_old_processed_ids (scripted []) dos_state) (today dos_state)
       = Some [CHR ''4'', CHR ''1'', CHR 0x0A]
   \<and> ledger_file torn_state = Some [CHR ''4'', CHR ''1'', CHR 0x0A, CHR 0xFF]
   \<and> length [CHR ''4'', CHR ''1'', CHR 0x0A, CHR 0xFF] \<le> max_ledger_bytes
   \<and> backups torn_state (today torn_state) = None
   \<and> backups (cleanup_old_processed_ids (scripted []) torn_state) (today torn_state)
       = Some []"
proof -
  have f: "ledger_file dos_state = Some [CHR ''4'', CHR ''1'', CHR 0x0D, CHR 0x0A]"
    by (simp add: dos_state_def)
  have l: "length [CHR ''4'', CHR ''1'', CHR 0x0D, CHR 0x0A] \<le> max_ledger_bytes"
    by (simp add: max_ledger_bytes_def)
  have b: "backups dos_state (today dos_state) = None" by (simp add: dos_state_def state0_def)
  have c: "backup_of (scripted []) [CHR ''4'', CHR ''1'', CHR 0x0D, CHR 0x0A] dos_state
             = [CHR ''4'', CHR ''1'', CHR 0x0A]"
    by (simp add: backup_of_def b codec_scripted ascii_decode_def ascii_encode_def char_of_eq_iff)
  have f': "ledger_file torn_state = Some [CHR ''4'', CHR ''1'', CHR 0x0A, CHR 0xFF]"
    by (simp add: torn_state_def)
  have l': "length [CHR ''4'', CHR ''1'', CHR 0x0A, CHR 0xFF] \<le> max_ledger_bytes"
    by (simp add: max_ledger_bytes_def)
  have b': "backups torn_state (today torn_state) = None"
    by (simp add: torn_state_def state0_def)
  have c': "backup_of (scripted []) [CHR ''4'', CHR ''1'', CHR 0x0A, CHR 0xFF] torn_state = []"
    by (simp add: backup_of_def b' codec_scripted ascii_decode_def)
  show ?thesis
    using f l b f' l' b'
    by (simp add: cleanup_light[OF f l] cleanup_light[OF f' l'] c c')
qed

section \<open>Recording attempts in a cycle\<close>




lemma processed_ids_view: "ledger_view s' = ledger_view s \<Longrightarrow> processed_ids s' = processed_ids s"
  by (simp add: ledger_view_def)
















































section \<open>No id delivered twice\<close>


































end
